theory Spec2Isabelle
  imports Complex_Main "HOL-Library.Word"
begin

section \<open>Data model of the order book (orderbook.cpp)\<close>

text \<open>
  A \<open>Node*\<close> is modelled as the number of a slot of the memory pool; the null pointer
  is \<open>None\<close>.  Prices are \<open>double\<close>s in the source.  The code never does arithmetic
  on a price, it only compares prices (\<open>!=\<close>, and the orderings of the two
  \<open>std::map\<close>s), so the price type is any linear order \<open>'p\<close>; this covers every
  set of doubles without NaN (which \<open>std::map\<close> excludes as a key).
  Quantities and identifiers are \<open>uint64_t\<close>: 64-bit words, whose \<open>+\<close> and \<open>-\<close> wrap.
\<close>

type_synonym addr = nat

record 'p Order =
  order_id :: "64 word"
  is_buy :: bool
  price :: 'p
  quantity :: "64 word"
  timestamp_ns :: "64 word"

text \<open>\<open>struct Node : public Order\<close> with its two links (\<open>next\<close>, \<open>prev\<close>).\<close>

record 'p Node = "'p Order" +
  next_ptr :: "addr option"
  prev_ptr :: "addr option"

text \<open>\<open>struct PriceLevel\<close>, the element of a snapshot: price and total quantity.\<close>

type_synonym 'p PriceLevel = "'p \<times> 64 word"

record PriceLevelData =
  total_quantity :: "64 word"
  head :: "addr option"
  tail :: "addr option"

record MemoryPool =
  blocks :: "addr list"
  free_list :: "addr list"

text \<open>
  The book: the two \<open>std::map\<close>s as association lists kept in the order of their
  comparator (the order in which the source iterates them), the
  \<open>std::unordered_map\<close> as a map, the pool, and the contents of the pool's memory.
  The memory is total: a slot that is free or was never handed out holds whatever was
  written there last, as raw storage does.
\<close>

record 'p OrderBook =
  bids :: "('p \<times> PriceLevelData) list"
  asks :: "('p \<times> PriceLevelData) list"
  order_lookup :: "64 word \<rightharpoonup> addr"
  pool :: MemoryPool
  mem :: "addr \<Rightarrow> 'p Node"

section \<open>MemoryPool\<close>

definition BLOCK_SIZE :: nat where
  "BLOCK_SIZE = 1024"

text \<open>
  \<open>operator new\<close> returns storage disjoint from every earlier block: block number
  \<open>k\<close> is the slots \<open>k * BLOCK_SIZE, ..., k * BLOCK_SIZE + BLOCK_SIZE - 1\<close>.
\<close>

definition allocate_block :: "MemoryPool \<Rightarrow> MemoryPool" where
  "allocate_block mp =
     (let block = BLOCK_SIZE * length (blocks mp)
      in mp\<lparr>blocks := blocks mp @ [block],
            free_list := free_list mp @ map (\<lambda>i. block + i) [0..<BLOCK_SIZE]\<rparr>)"

text \<open>
  \<open>free_list.front()\<close> is taken of a list that is not empty: an empty list has
  just been refilled with a block of \<open>BLOCK_SIZE\<close> slots.
\<close>

definition allocate :: "MemoryPool \<Rightarrow> addr \<times> MemoryPool" where
  "allocate mp =
     (let mp1 = (if free_list mp = [] then allocate_block mp else mp)
      in (hd (free_list mp1), mp1\<lparr>free_list := tl (free_list mp1)\<rparr>))"

text \<open>The destructor of a \<open>Node\<close> is trivial: the slot keeps its contents.\<close>

definition deallocate :: "addr \<Rightarrow> MemoryPool \<Rightarrow> MemoryPool" where
  "deallocate ptr mp = mp\<lparr>free_list := free_list mp @ [ptr]\<rparr>"

section \<open>The ordered maps\<close>

text \<open>
  The comparators: \<open>std::greater\<close> for the bids, \<open>std::less\<close> for the asks.
  The price order is linear, so two keys that a comparator does not order are equal, and
  the maps' lookup by equivalence is lookup by equality.
\<close>

definition side_less :: "bool \<Rightarrow> 'p::linorder \<Rightarrow> 'p \<Rightarrow> bool" where
  "side_less buy x y = (if buy then y < x else x < y)"

text \<open>\<open>find\<close>: the value stored under a key, \<open>None\<close> for \<open>end()\<close>.\<close>

definition map_find :: "'k \<Rightarrow> ('k \<times> 'v) list \<Rightarrow> 'v option" where
  "map_find k m = map_of m k"

text \<open>Insertion of a new entry at its place in the comparator's order.\<close>

fun map_insert :: "('k \<Rightarrow> 'k \<Rightarrow> bool) \<Rightarrow> 'k \<Rightarrow> 'v \<Rightarrow> ('k \<times> 'v) list \<Rightarrow> ('k \<times> 'v) list" where
  "map_insert lt k v [] = [(k, v)]"
| "map_insert lt k v ((k', v') # m) =
     (if lt k k' then (k, v) # (k', v') # m else (k', v') # map_insert lt k v m)"

text \<open>Assignment through a reference to the value of an entry that exists.\<close>

fun map_store :: "'k \<Rightarrow> 'v \<Rightarrow> ('k \<times> 'v) list \<Rightarrow> ('k \<times> 'v) list" where
  "map_store k v [] = []"
| "map_store k v ((k', v') # m) =
     (if k' = k then (k', v) # m else (k', v') # map_store k v m)"

text \<open>\<open>erase\<close> of the entry under a key.\<close>

fun map_erase :: "'k \<Rightarrow> ('k \<times> 'v) list \<Rightarrow> ('k \<times> 'v) list" where
  "map_erase k [] = []"
| "map_erase k ((k', v') # m) = (if k' = k then m else (k', v') # map_erase k m)"

definition empty_level :: PriceLevelData where
  "empty_level = \<lparr>total_quantity = 0, head = None, tail = None\<rparr>"

text \<open>
  \<open>side[price]\<close>: the level under the price, value-initialised and inserted when the
  map has none.  Returns the map with the entry present, and the entry's value.
\<close>

definition map_subscript ::
  "('k \<Rightarrow> 'k \<Rightarrow> bool) \<Rightarrow> 'k \<Rightarrow> ('k \<times> PriceLevelData) list
     \<Rightarrow> ('k \<times> PriceLevelData) list \<times> PriceLevelData" where
  "map_subscript lt k m =
     (case map_find k m of
        Some level \<Rightarrow> (m, level)
      | None \<Rightarrow> (map_insert lt k empty_level m, empty_level))"

text \<open>\<open>node->is_buy ? bids : asks\<close>, read and written back.\<close>

definition get_side :: "bool \<Rightarrow> 'p OrderBook \<Rightarrow> ('p \<times> PriceLevelData) list" where
  "get_side buy b = (if buy then bids b else asks b)"

definition set_side :: "bool \<Rightarrow> ('p \<times> PriceLevelData) list \<Rightarrow> 'p OrderBook \<Rightarrow> 'p OrderBook" where
  "set_side buy s b = (if buy then b\<lparr>bids := s\<rparr> else b\<lparr>asks := s\<rparr>)"

section \<open>OrderBook operations\<close>

text \<open>\<open>Node(const Order& o)\<close>: the order's fields, both links null.\<close>

definition Node_of :: "'p Order \<Rightarrow> 'p Node" where
  "Node_of ord = \<lparr>order_id = order_id ord, is_buy = is_buy ord, price = price ord,
                  quantity = quantity ord, timestamp_ns = timestamp_ns ord,
                  next_ptr = None, prev_ptr = None\<rparr>"

text \<open>
  The block of \<open>add_order\<close> (lines 90-98) that \<open>amend_order\<close> repeats (lines 184-192):
  add the quantity to the level's total and link the node behind the level's tail.
\<close>

definition push_back ::
  "addr \<Rightarrow> 64 word \<Rightarrow> PriceLevelData \<Rightarrow> (addr \<Rightarrow> 'p Node) \<Rightarrow> PriceLevelData \<times> (addr \<Rightarrow> 'p Node)" where
  "push_back node qty level m =
     (let level1 = level\<lparr>total_quantity := total_quantity level + qty\<rparr>;
          m1 = m(node := (m node)\<lparr>next_ptr := None, prev_ptr := tail level1\<rparr>);
          (m2, level2) =
            (case tail level1 of
               Some t \<Rightarrow> (m1(t := (m1 t)\<lparr>next_ptr := Some node\<rparr>), level1)
             | None \<Rightarrow> (m1, level1\<lparr>head := Some node\<rparr>))
      in (level2\<lparr>tail := Some node\<rparr>, m2))"

text \<open>
  The block of \<open>cancel_order\<close> (lines 115-126) that \<open>amend_order\<close> repeats (lines
  160-171): subtract the quantity from the level's total and splice the node out.
\<close>

definition unlink ::
  "addr \<Rightarrow> 64 word \<Rightarrow> PriceLevelData \<Rightarrow> (addr \<Rightarrow> 'p Node) \<Rightarrow> PriceLevelData \<times> (addr \<Rightarrow> 'p Node)" where
  "unlink node qty level m =
     (let level1 = level\<lparr>total_quantity := total_quantity level - qty\<rparr>;
          (m1, level2) =
            (case prev_ptr (m node) of
               Some p \<Rightarrow> (m(p := (m p)\<lparr>next_ptr := next_ptr (m node)\<rparr>), level1)
             | None \<Rightarrow> (m, level1\<lparr>head := next_ptr (m node)\<rparr>));
          (m2, level3) =
            (case next_ptr (m1 node) of
               Some n \<Rightarrow> (m1(n := (m1 n)\<lparr>prev_ptr := prev_ptr (m1 node)\<rparr>), level2)
             | None \<Rightarrow> (m1, level2\<lparr>tail := prev_ptr (m1 node)\<rparr>))
      in (level3, m2))"

definition add_order :: "'p::linorder Order \<Rightarrow> 'p OrderBook \<Rightarrow> 'p OrderBook" where
  "add_order ord b =
     (let (node, pool1) = allocate (pool b);
          m1 = (mem b)(node := Node_of ord);
          lookup1 = (order_lookup b)(order_id ord \<mapsto> node);
          (side, level) =
            map_subscript (side_less (is_buy ord)) (price ord) (get_side (is_buy ord) b);
          (level1, m2) = push_back node (quantity ord) level m1
      in set_side (is_buy ord) (map_store (price ord) level1 side)
           (b\<lparr>order_lookup := lookup1, pool := pool1, mem := m2\<rparr>))"

definition cancel_order :: "64 word \<Rightarrow> 'p OrderBook \<Rightarrow> 'p OrderBook \<times> bool" where
  "cancel_order oid b =
     (case order_lookup b oid of
        None \<Rightarrow> (b, False)
      | Some node \<Rightarrow>
          let buy = is_buy (mem b node);
              side = get_side buy b
          in (case map_find (price (mem b node)) side of
                None \<Rightarrow> (b, False)
              | Some level \<Rightarrow>
                  let (level1, m1) = unlink node (quantity (mem b node)) level (mem b);
                      side1 = (if head level1 = None
                               then map_erase (price (mem b node)) side
                               else map_store (price (mem b node)) level1 side)
                  in (set_side buy side1
                        (b\<lparr>order_lookup := (order_lookup b)(oid := None),
                           pool := deallocate node (pool b),
                           mem := m1\<rparr>),
                      True)))"

definition amend_order ::
  "64 word \<Rightarrow> 'p::linorder \<Rightarrow> 64 word \<Rightarrow> 'p OrderBook \<Rightarrow> 'p OrderBook \<times> bool" where
  "amend_order oid new_price new_quantity b =
     (case order_lookup b oid of
        None \<Rightarrow> (b, False)
      | Some node \<Rightarrow>
          let old_price = price (mem b node);
              old_quantity = quantity (mem b node)
          in if new_quantity = 0 then cancel_order oid b
             else
               let buy = is_buy (mem b node);
                   side = get_side buy b
               in if new_price \<noteq> old_price then
                    (case map_find old_price side of
                       None \<Rightarrow> (b, False)
                     | Some old_level \<Rightarrow>
                         let (old_level1, m1) = unlink node old_quantity old_level (mem b);
                             side1 = (if head old_level1 = None
                                      then map_erase old_price side
                                      else map_store old_price old_level1 side);
                             m2 = m1(node := (m1 node)\<lparr>price := new_price,
                                                        quantity := new_quantity\<rparr>);
                             (side2, new_level) = map_subscript (side_less buy) new_price side1;
                             (new_level1, m3) = push_back node new_quantity new_level m2
                         in (set_side buy (map_store new_price new_level1 side2)
                               (b\<lparr>mem := m3\<rparr>),
                             True))
                  else
                    (case map_find old_price side of
                       None \<Rightarrow> (b, False)
                     | Some level \<Rightarrow>
                         let level1 = level\<lparr>total_quantity :=
                                               total_quantity level - old_quantity\<rparr>;
                             level2 = level1\<lparr>total_quantity :=
                                                total_quantity level1 + new_quantity\<rparr>;
                             m1 = (mem b)(node := (mem b node)\<lparr>quantity := new_quantity\<rparr>)
                         in (set_side buy (map_store old_price level2 side) (b\<lparr>mem := m1\<rparr>),
                             True)))"

text \<open>
  The loop of \<open>get_snapshot\<close> over one map: stop at the end of the map or as soon as
  \<open>count >= depth\<close>.
\<close>

fun snapshot_loop ::
  "nat \<Rightarrow> nat \<Rightarrow> ('p \<times> PriceLevelData) list \<Rightarrow> 'p PriceLevel list \<Rightarrow> 'p PriceLevel list" where
  "snapshot_loop depth count [] out = out"
| "snapshot_loop depth count ((p, level) # rest) out =
     (if count \<ge> depth then out
      else snapshot_loop depth (Suc count) rest (out @ [(p, total_quantity level)]))"

text \<open>
  \<open>get_snapshot\<close> is a \<open>const\<close> member: it returns the two output vectors, which it
  clears first, and the book it was given.  The depth is a \<open>size_t\<close>; the count never
  exceeds the number of levels, so neither wraps and both are natural numbers here.
\<close>

definition get_snapshot ::
  "nat \<Rightarrow> 'p OrderBook \<Rightarrow> 'p OrderBook \<times> 'p PriceLevel list \<times> 'p PriceLevel list" where
  "get_snapshot depth b =
     (b, snapshot_loop depth 0 (bids b) [], snapshot_loop depth 0 (asks b) [])"

text \<open>A newly constructed book over memory with arbitrary contents.\<close>

definition empty_book :: "(addr \<Rightarrow> 'p Node) \<Rightarrow> 'p OrderBook" where
  "empty_book m0 = \<lparr>bids = [], asks = [], order_lookup = Map.empty,
                    pool = \<lparr>blocks = [], free_list = []\<rparr>, mem = m0\<rparr>"

section \<open>Sequences of operations\<close>

datatype 'p op = Add "'p Order" | Cancel "64 word" | Amend "64 word" 'p "64 word"

fun apply_op :: "'p::linorder op \<Rightarrow> 'p OrderBook \<Rightarrow> 'p OrderBook" where
  "apply_op (Add ord) b = add_order ord b"
| "apply_op (Cancel oid) b = fst (cancel_order oid b)"
| "apply_op (Amend oid p q) b = fst (amend_order oid p q b)"

fun run :: "'p::linorder op list \<Rightarrow> 'p OrderBook \<Rightarrow> 'p OrderBook" where
  "run [] b = b"
| "run (x # xs) b = run xs (apply_op x b)"

text \<open>The preconditions of \<open>add\<close>: the identifier is not resting, the quantity is positive.\<close>

fun op_pre :: "'p op \<Rightarrow> 'p OrderBook \<Rightarrow> bool" where
  "op_pre (Add ord) b = (order_lookup b (order_id ord) = None \<and> 0 < quantity ord)"
| "op_pre (Cancel oid) b = True"
| "op_pre (Amend oid p q) b = True"

fun ops_pre :: "'p::linorder op list \<Rightarrow> 'p OrderBook \<Rightarrow> bool" where
  "ops_pre [] b = True"
| "ops_pre (x # xs) b = (op_pre x b \<and> ops_pre xs (apply_op x b))"

section \<open>Chains and the invariants of the book\<close>

text \<open>
  A null-terminated singly linked list: the nodes met from \<open>x\<close> along the link \<open>f\<close>.
  A level's chain is such a list along \<open>next\<close> from its head, and the reverse of
  it along \<open>prev\<close> from its tail.
\<close>

fun sll :: "(addr \<Rightarrow> addr option) \<Rightarrow> addr option \<Rightarrow> addr list \<Rightarrow> bool" where
  "sll f x [] = (x = None)"
| "sll f x (a # as) = (x = Some a \<and> sll f (f a) as)"

text \<open>Following the links until null; \<open>None\<close> when the links run in a cycle.\<close>

partial_function (option) walk :: "(addr \<Rightarrow> addr option) \<Rightarrow> addr option \<Rightarrow> addr list option" where
  "walk f x =
     (case x of
        None \<Rightarrow> Some []
      | Some a \<Rightarrow> Option.bind (walk f (f a)) (\<lambda>ns. Some (a # ns)))"

definition chain :: "(addr \<Rightarrow> 'p Node) \<Rightarrow> PriceLevelData \<Rightarrow> addr list" where
  "chain m l = (case walk (\<lambda>a. next_ptr (m a)) (head l) of None \<Rightarrow> [] | Some ns \<Rightarrow> ns)"

text \<open>The nodes \<open>ns\<close> are the chain of a level: linked forwards from its head, backwards from its tail.\<close>

definition is_chain :: "(addr \<Rightarrow> 'p Node) \<Rightarrow> PriceLevelData \<Rightarrow> addr list \<Rightarrow> bool" where
  "is_chain m l ns =
     (sll (\<lambda>a. next_ptr (m a)) (head l) ns \<and> sll (\<lambda>a. prev_ptr (m a)) (tail l) (rev ns))"

text \<open>The chain and the total of the level of one side at one price (empty, 0 without level).\<close>

definition chain_at :: "'p OrderBook \<Rightarrow> bool \<Rightarrow> 'p \<Rightarrow> addr list" where
  "chain_at b buy p =
     (case map_find p (get_side buy b) of None \<Rightarrow> [] | Some l \<Rightarrow> chain (mem b) l)"

definition total_at :: "'p OrderBook \<Rightarrow> bool \<Rightarrow> 'p \<Rightarrow> 64 word" where
  "total_at b buy p =
     (case map_find p (get_side buy b) of None \<Rightarrow> 0 | Some l \<Rightarrow> total_quantity l)"

definition has_level :: "'p OrderBook \<Rightarrow> bool \<Rightarrow> 'p \<Rightarrow> bool" where
  "has_level b buy p = (map_find p (get_side buy b) \<noteq> None)"

text \<open>The order a record holds.\<close>

definition order_of :: "'p Node \<Rightarrow> 'p Order" where
  "order_of n = \<lparr>order_id = order_id n, is_buy = is_buy n, price = price n,
                 quantity = quantity n, timestamp_ns = timestamp_ns n\<rparr>"

text \<open>The ordering invariant of a \<open>std::map\<close>: keys strictly in the comparator's order.\<close>

definition map_ordered :: "('k \<Rightarrow> 'k \<Rightarrow> bool) \<Rightarrow> ('k \<times> 'v) list \<Rightarrow> bool" where
  "map_ordered lt m = sorted_wrt lt (map fst m)"

definition maps_ordered :: "'p::linorder OrderBook \<Rightarrow> bool" where
  "maps_ordered b =
     (map_ordered (side_less True) (bids b) \<and> map_ordered (side_less False) (asks b))"

text \<open>
  A level is well formed: its links form a non-empty doubly linked chain from head to
  tail, its total is the sum (of 64-bit words) of the quantities of the chain, and
  every record of the chain carries the side and price of the level and lies in the pool.
\<close>

definition level_ok :: "(addr \<Rightarrow> 'p Node) \<Rightarrow> nat \<Rightarrow> bool \<Rightarrow> 'p \<Rightarrow> PriceLevelData \<Rightarrow> bool" where
  "level_ok m cap buy p l =
     (case walk (\<lambda>a. next_ptr (m a)) (head l) of
        None \<Rightarrow> False
      | Some ns \<Rightarrow>
          ns \<noteq> [] \<and> sll (\<lambda>a. prev_ptr (m a)) (tail l) (rev ns)
          \<and> total_quantity l = sum_list (map (\<lambda>a. quantity (m a)) ns)
          \<and> (\<forall>a \<in> set ns. is_buy (m a) = buy \<and> price (m a) = p \<and> a < cap))"

definition side_ok :: "'p::linorder OrderBook \<Rightarrow> nat \<Rightarrow> bool \<Rightarrow> bool" where
  "side_ok b cap buy =
     (map_ordered (side_less buy) (get_side buy b)
      \<and> (\<forall>(p, l) \<in> set (get_side buy b). level_ok (mem b) cap buy p l))"

text \<open>A record is resting: the level its own side and price name has it in its chain.\<close>

definition resting :: "'p OrderBook \<Rightarrow> addr \<Rightarrow> bool" where
  "resting b a = (a \<in> set (chain_at b (is_buy (mem b a)) (price (mem b a))))"

text \<open>A slot is in no chain at all.\<close>

definition unlinked :: "'p OrderBook \<Rightarrow> addr \<Rightarrow> bool" where
  "unlinked b a =
     (\<forall>buy \<in> {True, False}. \<forall>(p, l) \<in> set (get_side buy b). a \<notin> set (chain (mem b) l))"

definition capacity :: "MemoryPool \<Rightarrow> nat" where
  "capacity mp = BLOCK_SIZE * length (blocks mp)"

definition pool_ok :: "'p OrderBook \<Rightarrow> bool" where
  "pool_ok b =
     (distinct (free_list (pool b))
      \<and> (\<forall>a \<in> set (free_list (pool b)). a < capacity (pool b) \<and> unlinked b a))"

definition index_ok :: "'p OrderBook \<Rightarrow> bool" where
  "index_ok b =
     (\<forall>oid \<in> dom (order_lookup b).
        case order_lookup b oid of
          None \<Rightarrow> False
        | Some a \<Rightarrow> order_id (mem b a) = oid \<and> resting b a)"

definition sides_ok :: "'p::linorder OrderBook \<Rightarrow> nat \<Rightarrow> bool" where
  "sides_ok b cap = (side_ok b cap True \<and> side_ok b cap False)"

definition wf_book :: "'p::linorder OrderBook \<Rightarrow> bool" where
  "wf_book b = (sides_ok b (capacity (pool b)) \<and> pool_ok b \<and> index_ok b)"

section \<open>The invariants the specification states\<close>

text \<open>
  Every level's total equals the sum of the quantities of its chain, the sum taken
  exactly (in the natural numbers).
\<close>

definition totals_exact :: "'p OrderBook \<Rightarrow> bool" where
  "totals_exact b =
     (\<forall>buy \<in> {True, False}. \<forall>(p, l) \<in> set (get_side buy b).
        unat (total_quantity l)
          = sum_list (map (\<lambda>a. unat (quantity (mem b a))) (chain (mem b) l)))"

text \<open>The same with the sum reduced modulo \<open>2 ^ 64\<close>, as \<open>uint64_t\<close> addition does.\<close>

definition totals_mod64 :: "'p OrderBook \<Rightarrow> bool" where
  "totals_mod64 b =
     (\<forall>buy \<in> {True, False}. \<forall>(p, l) \<in> set (get_side buy b).
        unat (total_quantity l)
          = sum_list (map (\<lambda>a. unat (quantity (mem b a))) (chain (mem b) l)) mod 2 ^ 64)"

definition no_empty_level :: "'p OrderBook \<Rightarrow> bool" where
  "no_empty_level b =
     (\<forall>buy \<in> {True, False}. \<forall>(p, l) \<in> set (get_side buy b). chain (mem b) l \<noteq> [])"

definition index_resting :: "'p OrderBook \<Rightarrow> bool" where
  "index_resting b =
     (\<forall>oid \<in> dom (order_lookup b).
        case order_lookup b oid of None \<Rightarrow> False | Some a \<Rightarrow> resting b a)"

section \<open>The two halves of the operations\<close>

text \<open>
  What \<open>cancel_order\<close> (lines 108-130) and the price-changing branch of
  \<open>amend_order\<close> (lines 150-175) do to the maps and the memory for a record whose
  level exists: unlink it from the level its fields name, erase the level when its
  head became null.
\<close>

definition detach :: "addr \<Rightarrow> 'p OrderBook \<Rightarrow> 'p OrderBook" where
  "detach node b =
     (let buy = is_buy (mem b node);
          side = get_side buy b
      in case map_find (price (mem b node)) side of
           None \<Rightarrow> b
         | Some level \<Rightarrow>
             let (level1, m1) = unlink node (quantity (mem b node)) level (mem b);
                 side1 = (if head level1 = None
                          then map_erase (price (mem b node)) side
                          else map_store (price (mem b node)) level1 side)
             in set_side buy side1 (b\<lparr>mem := m1\<rparr>))"

text \<open>
  What \<open>add_order\<close> (lines 87-98) and \<open>amend_order\<close> (lines 182-192) do once the
  record's fields are in memory: find or create the level the fields name and link the
  record behind its tail.
\<close>

definition attach :: "addr \<Rightarrow> 'p::linorder OrderBook \<Rightarrow> 'p OrderBook" where
  "attach node b =
     (let buy = is_buy (mem b node);
          (side, level) = map_subscript (side_less buy) (price (mem b node)) (get_side buy b);
          (level1, m1) = push_back node (quantity (mem b node)) level (mem b)
      in set_side buy (map_store (price (mem b node)) level1 side) (b\<lparr>mem := m1\<rparr>))"

section \<open>Concrete books\<close>

definition mk_order :: "64 word \<Rightarrow> bool \<Rightarrow> 'p \<Rightarrow> 64 word \<Rightarrow> 'p Order" where
  "mk_order i buy p q =
     \<lparr>order_id = i, is_buy = buy, price = p, quantity = q, timestamp_ns = 0\<rparr>"

definition zero_mem :: "addr \<Rightarrow> real Node" where
  "zero_mem = (\<lambda>_. Node_of (mk_order 0 False 0 0))"

text \<open>The three insertions of the scenario of the specification.\<close>

definition scenario_book :: "(addr \<Rightarrow> real Node) \<Rightarrow> real OrderBook" where
  "scenario_book m0 =
     add_order (mk_order 3 True 101 7)
       (add_order (mk_order 2 True 100 5)
          (add_order (mk_order 1 True 100 10) (empty_book m0)))"

text \<open>
  A book whose index holds identifier 1 for a buy record at price 100 in slot 0, while
  the bid map has no level at all.
\<close>

definition dangling_book :: "real OrderBook" where
  "dangling_book =
     \<lparr>bids = [], asks = [], order_lookup = [1 \<mapsto> 0],
      pool = \<lparr>blocks = [0], free_list = [1..<BLOCK_SIZE]\<rparr>,
      mem = (\<lambda>_. Node_of (mk_order 1 True 100 10))\<rparr>"

text \<open>Two buy orders of \<open>2 ^ 63\<close> each at one price.\<close>

definition overflow_ops :: "real op list" where
  "overflow_ops =
     [Add (mk_order 1 True 100 9223372036854775808),
      Add (mk_order 2 True 100 9223372036854775808)]"

text \<open>Two insertions at one price and the cancellation of the first.\<close>

definition short_ops :: "real op list" where
  "short_ops = [Add (mk_order 1 True 100 10), Add (mk_order 2 True 100 5), Cancel 1]"

section \<open>The memory pool\<close>

lemma map_plus_upt: "map (\<lambda>i. n + i) [0..<m] = [n..<n + m]"
  using map_add_upt [of n m] by (simp add: add.commute)

lemma allocate_empty:
  "free_list mp = [] \<Longrightarrow> allocate mp =
     (capacity mp,
      mp\<lparr>blocks := blocks mp @ [capacity mp],
         free_list := [Suc (capacity mp)..<capacity mp + BLOCK_SIZE]\<rparr>)"
  by (simp add: allocate_def allocate_block_def capacity_def Let_def map_plus_upt BLOCK_SIZE_def
      del: upt_Suc)

lemma allocate_nonempty:
  "free_list mp \<noteq> [] \<Longrightarrow>
     allocate mp = (hd (free_list mp), mp\<lparr>free_list := tl (free_list mp)\<rparr>)"
  by (simp add: allocate_def)

lemmas book_eval =
  get_snapshot_def add_order_def cancel_order_def amend_order_def empty_book_def
  allocate_empty allocate_nonempty deallocate_def capacity_def BLOCK_SIZE_def
  map_subscript_def map_find_def empty_level_def get_side_def set_side_def
  push_back_def unlink_def Node_of_def mk_order_def side_less_def Let_def

section \<open>The snapshot\<close>

lemma snapshot_loop_take:
  "snapshot_loop depth count m out =
     out @ take (depth - count) (map (\<lambda>(p, l). (p, total_quantity l)) m)"
proof (induction m arbitrary: count out)
  case Nil
  show ?case by simp
next
  case (Cons e m)
  obtain p l where e: "e = (p, l)" by (cases e)
  show ?case
  proof (cases "depth \<le> count")
    case True
    then show ?thesis by (simp add: e)
  next
    case False
    then have "depth - count = Suc (depth - Suc count)" by simp
    then show ?thesis using False by (simp add: e Cons.IH)
  qed
qed

lemma sorted_wrt_take_map:
  "sorted_wrt lt (map fst m) \<Longrightarrow>
     sorted_wrt (\<lambda>x y. lt (fst x) (fst y)) (take n (map (\<lambda>(p, l). (p, g l)) m))"
proof -
  assume a: "sorted_wrt lt (map fst m)"
  have "map fst (take n (map (\<lambda>(p, l). (p, g l)) m)) = take n (map fst m)"
    by (simp add: take_map split_def o_def)
  moreover have "sorted_wrt lt (take n (map fst m))"
    using a by (rule sorted_wrt_take)
  ultimately have "sorted_wrt lt (map fst (take n (map (\<lambda>(p, l). (p, g l)) m)))"
    by simp
  then show ?thesis by (simp only: sorted_wrt_map)
qed

lemma sorted_wrt_less_distinct:
  "sorted_wrt (\<lambda>x y. lt (fst x) (fst y)) xs \<Longrightarrow> (\<And>x. \<not> lt x x) \<Longrightarrow> distinct (map fst xs)"
  by (induction xs) auto

lemma order_lookup_set_side [simp]: "order_lookup (set_side buy s b) = order_lookup b"
  by (simp add: set_side_def)

lemma cancel_order_absent: "order_lookup b oid = None \<Longrightarrow> cancel_order oid b = (b, False)"
  by (simp add: cancel_order_def)

lemma cancel_order_success_lookup:
  "cancel_order oid b = (b', True) \<Longrightarrow> order_lookup b' oid = None"
  by (auto simp: cancel_order_def Let_def split: option.splits prod.splits)

section \<open>Linked lists in memory\<close>

lemma walk_None: "walk f None = Some []"
  by (subst walk.simps) simp

lemma walk_Some: "walk f (Some a) = Option.bind (walk f (f a)) (\<lambda>ns. Some (a # ns))"
  by (subst walk.simps) simp

lemma sll_walk: "sll f x ns \<Longrightarrow> walk f x = Some ns"
  by (induction ns arbitrary: x) (simp_all add: walk_None walk_Some)

lemma walk_sll: "walk f x = Some ns \<Longrightarrow> sll f x ns"
proof (induction ns arbitrary: x)
  case Nil
  then show ?case
    by (cases x) (auto simp: walk_Some bind_eq_Some_conv)
next
  case (Cons a ns)
  then show ?case
    by (cases x) (auto simp: walk_None walk_Some bind_eq_Some_conv)
qed

lemma sll_cong: "(\<And>a. a \<in> set ns \<Longrightarrow> f' a = f a) \<Longrightarrow> sll f' x ns = sll f x ns"
  by (induction ns arbitrary: x) auto

lemma sll_unique: "sll f x as \<Longrightarrow> sll f x bs \<Longrightarrow> as = bs"
proof (induction as arbitrary: x bs)
  case Nil
  then show ?case by (cases bs) auto
next
  case (Cons a as)
  then show ?case by (cases bs) auto
qed

lemma sll_after: "sll f x (as @ a # bs) \<Longrightarrow> sll f (f a) bs"
  by (induction as arbitrary: x) auto

lemma sll_distinct: "sll f x ns \<Longrightarrow> distinct ns"
proof (induction ns arbitrary: x)
  case Nil
  show ?case by simp
next
  case (Cons a ns)
  have tl: "sll f (f a) ns" using Cons.prems by simp
  have "a \<notin> set ns"
  proof
    assume "a \<in> set ns"
    then obtain ys zs where ns: "ns = ys @ a # zs" by (auto simp: in_set_conv_decomp)
    with tl have "sll f (f a) zs" by (auto dest: sll_after)
    with tl have "ns = zs" by (rule sll_unique)
    with ns show False by simp
  qed
  with Cons.IH [OF tl] show ?case by simp
qed

lemma sll_head: "sll f x ns \<Longrightarrow> x = (case ns of [] \<Rightarrow> None | a # _ \<Rightarrow> Some a)"
  by (cases ns) auto

lemma sll_next_of:
  "sll f x (as @ a # bs) \<Longrightarrow> f a = (case bs of [] \<Rightarrow> None | b # _ \<Rightarrow> Some b)"
  by (drule sll_after) (rule sll_head)

lemma sll_remove:
  assumes "sll f x (as @ a # bs)"
    and "\<And>y. y \<in> set as \<union> set bs \<Longrightarrow> as = [] \<or> y \<noteq> last as \<Longrightarrow> f' y = f y"
    and "as \<noteq> [] \<Longrightarrow> f' (last as) = f a \<and> x' = x"
    and "as = [] \<Longrightarrow> x' = f a"
  shows "sll f' x' (as @ bs)"
  using assms
proof (induction as arbitrary: x x')
  case Nil
  then have "sll f (f a) bs" by simp
  moreover have "sll f' (f a) bs = sll f (f a) bs"
    using Nil.prems(2) by (intro sll_cong) simp
  ultimately show ?case using Nil.prems(4) by simp
next
  case (Cons c cs)
  have d: "distinct (c # cs @ a # bs)"
    using sll_distinct [OF Cons.prems(1)] by simp
  have x: "x = Some c" "x' = x" and tl: "sll f (f c) (cs @ a # bs)"
    using Cons.prems(1,3) by simp_all
  show ?case
  proof (cases "cs = []")
    case True
    have fc: "f' c = f a" using Cons.prems(3) True by simp
    have "sll f (f a) bs" using tl True by simp
    moreover have "sll f' (f a) bs = sll f (f a) bs"
    proof (rule sll_cong)
      fix y assume "y \<in> set bs"
      then show "f' y = f y" using Cons.prems(2) [of y] d True by auto
    qed
    ultimately show ?thesis using x fc True by simp
  next
    case False
    have "c \<noteq> last cs" using last_in_set [OF False] d by auto
    then have fc: "f' c = f c" using Cons.prems(2) [of c] False by simp
    have "sll f' (f c) (cs @ bs)"
    proof (rule Cons.IH [OF tl])
      fix y assume "y \<in> set cs \<union> set bs" "cs = [] \<or> y \<noteq> last cs"
      then show "f' y = f y" using Cons.prems(2) [of y] False by auto
    next
      assume "cs \<noteq> []"
      then show "f' (last cs) = f a \<and> f c = f c" using Cons.prems(3) by simp
    next
      assume "cs = []"
      with False show "f c = f a" by simp
    qed
    then show ?thesis using x fc by simp
  qed
qed

lemma sll_snoc:
  assumes "sll f x ns" and "a \<notin> set ns"
    and "\<And>y. y \<in> set ns \<Longrightarrow> y \<noteq> last ns \<Longrightarrow> f' y = f y"
    and "ns \<noteq> [] \<Longrightarrow> f' (last ns) = Some a \<and> x' = x"
    and "ns = [] \<Longrightarrow> x' = Some a"
    and "f' a = None"
  shows "sll f' x' (ns @ [a])"
  using assms
proof (induction ns arbitrary: x x')
  case Nil
  then show ?case by simp
next
  case (Cons c cs)
  have d: "distinct (c # cs)" using sll_distinct [OF Cons.prems(1)] .
  have x: "x = Some c" "x' = x" and tl: "sll f (f c) cs"
    using Cons.prems(1,4) by simp_all
  show ?case
  proof (cases "cs = []")
    case True
    then show ?thesis using x Cons.prems(4,6) by simp
  next
    case False
    have "c \<noteq> last cs" using last_in_set [OF False] d by auto
    then have fc: "f' c = f c" using Cons.prems(3) [of c] False by simp
    have "sll f' (f c) (cs @ [a])"
    proof (rule Cons.IH [OF tl])
      show "a \<notin> set cs" using Cons.prems(2) by simp
    next
      fix y assume "y \<in> set cs" "y \<noteq> last cs"
      then show "f' y = f y" using Cons.prems(3) [of y] False by auto
    next
      assume "cs \<noteq> []"
      then show "f' (last cs) = Some a \<and> f c = f c" using Cons.prems(4) by simp
    next
      assume "cs = []"
      with False show "f c = Some a" by simp
    next
      show "f' a = None" by (rule Cons.prems(6))
    qed
    then show ?thesis using x fc by simp
  qed
qed

section \<open>Chains of levels\<close>

lemma chain_eq: "is_chain m l ns \<Longrightarrow> chain m l = ns"
  by (auto simp: is_chain_def chain_def dest: sll_walk)

lemma is_chain_distinct: "is_chain m l ns \<Longrightarrow> distinct ns"
  unfolding is_chain_def by (blast dest: sll_distinct)

lemma is_chain_head: "is_chain m l ns \<Longrightarrow> head l = (case ns of [] \<Rightarrow> None | a # _ \<Rightarrow> Some a)"
  unfolding is_chain_def by (blast dest: sll_head)

lemma is_chain_tail:
  "is_chain m l ns \<Longrightarrow> tail l = (if ns = [] then None else Some (last ns))"
  unfolding is_chain_def by (auto dest!: sll_head simp: hd_rev split: list.splits)

lemma is_chain_cong:
  assumes "is_chain m l ns"
    and "\<And>a. a \<in> set ns \<Longrightarrow> next_ptr (m' a) = next_ptr (m a) \<and> prev_ptr (m' a) = prev_ptr (m a)"
  shows "is_chain m' l ns"
proof -
  have "sll (\<lambda>a. next_ptr (m' a)) (head l) ns = sll (\<lambda>a. next_ptr (m a)) (head l) ns"
    using assms(2) by (intro sll_cong) simp
  moreover have "sll (\<lambda>a. prev_ptr (m' a)) (tail l) (rev ns)
      = sll (\<lambda>a. prev_ptr (m a)) (tail l) (rev ns)"
    using assms(2) by (intro sll_cong) simp
  ultimately show ?thesis using assms(1) by (simp add: is_chain_def)
qed

lemma level_ok_iff:
  "level_ok m cap buy p l \<longleftrightarrow>
     (\<exists>ns. is_chain m l ns \<and> ns \<noteq> []
        \<and> total_quantity l = sum_list (map (\<lambda>a. quantity (m a)) ns)
        \<and> (\<forall>a \<in> set ns. is_buy (m a) = buy \<and> price (m a) = p \<and> a < cap))"
  by (auto simp: level_ok_def is_chain_def sll_walk dest: walk_sll split: option.splits)

lemma order_of_links [simp]:
  "order_of (n\<lparr>next_ptr := x\<rparr>) = order_of n"
  "order_of (n\<lparr>prev_ptr := y\<rparr>) = order_of n"
  by (simp_all add: order_of_def)

lemma order_of_fields:
  "order_of n = order_of n' \<Longrightarrow>
     order_id n = order_id n' \<and> is_buy n = is_buy n' \<and> price n = price n'
     \<and> quantity n = quantity n' \<and> timestamp_ns n = timestamp_ns n'"
  by (simp add: order_of_def)

lemma push_back_chain:
  assumes c: "is_chain m l ns" and n: "node \<notin> set ns"
    and pb: "push_back node q l m = (l', m')"
  shows "is_chain m' l' (ns @ [node])"
    and "total_quantity l' = total_quantity l + q"
    and "\<And>x. x \<notin> set ns \<Longrightarrow> x \<noteq> node \<Longrightarrow> m' x = m x"
    and "\<And>x. order_of (m' x) = order_of (m x)"
proof -
  have nxt: "sll (\<lambda>a. next_ptr (m a)) (head l) ns"
    and prv: "sll (\<lambda>a. prev_ptr (m a)) (tail l) (rev ns)"
    using c by (simp_all add: is_chain_def)
  have main: "is_chain m' l' (ns @ [node])
        \<and> total_quantity l' = total_quantity l + q
        \<and> (\<forall>x. x \<notin> set ns \<longrightarrow> x \<noteq> node \<longrightarrow> m' x = m x)
        \<and> (\<forall>x. order_of (m' x) = order_of (m x))"
  proof (cases "ns = []")
    case True
    then have ht: "head l = None" "tail l = None"
      using is_chain_head [OF c] is_chain_tail [OF c] by simp_all
    have l': "l' = l\<lparr>total_quantity := total_quantity l + q, head := Some node, tail := Some node\<rparr>"
      and m': "m' = m(node := (m node)\<lparr>next_ptr := None, prev_ptr := None\<rparr>)"
      using pb ht by (auto simp: push_back_def Let_def)
    show ?thesis
      using True by (simp add: l' m' is_chain_def)
  next
    case False
    define t where "t = last ns"
    have t: "tail l = Some t" using is_chain_tail [OF c] False by (simp add: t_def)
    have tin: "t \<in> set ns" using False by (simp add: t_def)
    then have tn: "t \<noteq> node" using n by auto
    have l': "l' = l\<lparr>total_quantity := total_quantity l + q, tail := Some node\<rparr>"
      and m': "m' = (m(node := (m node)\<lparr>next_ptr := None, prev_ptr := Some t\<rparr>))
                      (t := (m t)\<lparr>next_ptr := Some node\<rparr>)"
      using pb t tn by (auto simp: push_back_def Let_def)
    have "sll (\<lambda>a. next_ptr (m' a)) (head l') (ns @ [node])"
    proof (rule sll_snoc [OF nxt n])
      fix y assume "y \<in> set ns" "y \<noteq> last ns"
      then show "next_ptr (m' y) = next_ptr (m y)" using n by (auto simp: m' t_def)
    next
      show "next_ptr (m' (last ns)) = Some node \<and> head l' = head l"
        by (simp add: m' l' t_def)
    next
      assume "ns = []"
      with False show "head l' = Some node" by simp
    next
      show "next_ptr (m' node) = None" using tn by (simp add: m')
    qed
    moreover have "sll (\<lambda>a. prev_ptr (m' a)) (tail l) (rev ns)
        = sll (\<lambda>a. prev_ptr (m a)) (tail l) (rev ns)"
      using n by (intro sll_cong) (auto simp: m')
    then have "sll (\<lambda>a. prev_ptr (m' a)) (tail l') (rev (ns @ [node]))"
      using prv tn by (simp add: l' m' t)
    ultimately show ?thesis
      using tin by (auto simp: is_chain_def l' m')
  qed
  show "is_chain m' l' (ns @ [node])"
    and "total_quantity l' = total_quantity l + q"
    and "\<And>x. x \<notin> set ns \<Longrightarrow> x \<noteq> node \<Longrightarrow> m' x = m x"
    and "\<And>x. order_of (m' x) = order_of (m x)"
    using main by blast+
qed

lemma unlink_chain:
  assumes c: "is_chain m l ns" and n: "node \<in> set ns"
    and ul: "unlink node q l m = (l', m')"
  shows "is_chain m' l' (remove1 node ns)"
    and "total_quantity l' = total_quantity l - q"
    and "\<And>x. x \<notin> set ns \<Longrightarrow> m' x = m x"
    and "\<And>x. order_of (m' x) = order_of (m x)"
proof -
  have nxt: "sll (\<lambda>a. next_ptr (m a)) (head l) ns"
    and prv: "sll (\<lambda>a. prev_ptr (m a)) (tail l) (rev ns)"
    using c by (simp_all add: is_chain_def)
  obtain as bs where ns: "ns = as @ node # bs"
    using n by (auto simp: in_set_conv_decomp)
  have d: "distinct (as @ node # bs)" using is_chain_distinct [OF c] ns by simp
  then have rm: "remove1 node ns = as @ bs"
    by (simp add: ns remove1_append)
  define N where "N = (case bs of [] \<Rightarrow> None | b # _ \<Rightarrow> Some b)"
  define P where "P = (case rev as of [] \<Rightarrow> None | a # _ \<Rightarrow> Some a)"
  have N: "next_ptr (m node) = N"
    using sll_next_of [OF nxt [unfolded ns]] by (simp add: N_def)
  have "sll (\<lambda>a. prev_ptr (m a)) (tail l) (rev bs @ node # rev as)"
    using prv by (simp add: ns)
  note prv' = this
  have P: "prev_ptr (m node) = P"
    using sll_next_of [OF prv'] by (simp add: P_def)
  have Pin: "\<And>p. P = Some p \<Longrightarrow> p \<in> set as \<and> as \<noteq> [] \<and> p = last as"
    by (cases as rule: rev_cases) (auto simp: P_def)
  have Nin: "\<And>b. N = Some b \<Longrightarrow> b \<in> set bs \<and> bs \<noteq> [] \<and> b = hd bs"
    by (cases bs) (auto simp: N_def)
  have Pn: "P = None \<longleftrightarrow> as = []" by (cases as rule: rev_cases) (auto simp: P_def)
  have Nn: "N = None \<longleftrightarrow> bs = []" by (cases bs) (auto simp: N_def)
  have Pne: "\<And>p. P = Some p \<Longrightarrow> p \<noteq> node" using Pin d by auto
  define m1 where "m1 = (case P of Some p \<Rightarrow> m(p := (m p)\<lparr>next_ptr := N\<rparr>) | None \<Rightarrow> m)"
  define M where "M = (case N of Some b \<Rightarrow> m1(b := (m1 b)\<lparr>prev_ptr := P\<rparr>) | None \<Rightarrow> m1)"
  define L where "L = l\<lparr>total_quantity := total_quantity l - q,
      head := (if P = None then N else head l), tail := (if N = None then P else tail l)\<rparr>"
  have "unlink node q l m = (L, M)"
    using N P Pne
    by (cases P; cases N) (simp_all add: unlink_def Let_def L_def M_def m1_def)
  with ul have "l' = L" "m' = M" by simp_all
  then have m': "m' = (case N of Some b \<Rightarrow> m1(b := (m1 b)\<lparr>prev_ptr := P\<rparr>) | None \<Rightarrow> m1)"
    and hd': "head l' = (if P = None then N else head l)"
    and tl': "tail l' = (if N = None then P else tail l)"
    and tot: "total_quantity l' = total_quantity l - q"
    by (simp_all add: L_def M_def)
  have nx': "\<And>y. next_ptr (m' y) = (if P = Some y then N else next_ptr (m y))"
    by (auto simp: m' m1_def split: option.splits)
  have pv': "\<And>y. prev_ptr (m' y) = (if N = Some y then P else prev_ptr (m y))"
    by (auto simp: m' m1_def split: option.splits)
  have "sll (\<lambda>a. next_ptr (m' a)) (head l') (as @ bs)"
  proof (rule sll_remove [OF nxt [unfolded ns]])
    fix y assume "y \<in> set as \<union> set bs" "as = [] \<or> y \<noteq> last as"
    then show "next_ptr (m' y) = next_ptr (m y)"
      using Pin Pn by (auto simp: nx')
  next
    assume "as \<noteq> []"
    then obtain p where "P = Some p" using Pn by auto
    then show "next_ptr (m' (last as)) = next_ptr (m node) \<and> head l' = head l"
      using Pin [of p] by (simp add: nx' hd' N)
  next
    assume "as = []"
    then show "head l' = next_ptr (m node)" using Pn by (simp add: hd' N)
  qed
  moreover have "sll (\<lambda>a. prev_ptr (m' a)) (tail l') (rev bs @ rev as)"
  proof (rule sll_remove [OF prv'])
    fix y assume "y \<in> set (rev bs) \<union> set (rev as)" "rev bs = [] \<or> y \<noteq> last (rev bs)"
    then show "prev_ptr (m' y) = prev_ptr (m y)"
      using Nin Nn by (auto simp: pv' last_rev)
  next
    assume "rev bs \<noteq> []"
    then obtain b where "N = Some b" using Nn by auto
    then show "prev_ptr (m' (last (rev bs))) = prev_ptr (m node) \<and> tail l' = tail l"
      using Nin [of b] by (simp add: pv' tl' P last_rev)
  next
    assume "rev bs = []"
    then show "tail l' = prev_ptr (m node)" using Nn by (simp add: tl' P)
  qed
  ultimately show "is_chain m' l' (remove1 node ns)"
    by (simp add: is_chain_def rm)
  show "total_quantity l' = total_quantity l - q" by (rule tot)
  show "\<And>x. x \<notin> set ns \<Longrightarrow> m' x = m x"
    using Pin Nin by (auto simp: m' m1_def ns split: option.splits)
  show "\<And>x. order_of (m' x) = order_of (m x)"
    by (auto simp: m' m1_def split: option.splits)
qed

section \<open>The ordered maps\<close>

lemma side_less_distinct: "sorted_wrt (side_less s) ks \<Longrightarrow> distinct ks"
  by (induction ks) (auto simp: side_less_def split: if_splits)

lemma map_ordered_distinct: "map_ordered (side_less s) m \<Longrightarrow> distinct (map fst m)"
  unfolding map_ordered_def by (rule side_less_distinct)

lemma map_find_mem:
  "map_ordered (side_less s) m \<Longrightarrow> (p, l) \<in> set m \<longleftrightarrow> map_find p m = Some l"
  by (simp add: map_find_def map_ordered_distinct)

lemma fst_map_store [simp]: "map fst (map_store k v m) = map fst m"
  by (induction m) auto

lemma map_find_map_store:
  "map_find k' (map_store k v m) =
     (if k' = k \<and> map_find k m \<noteq> None then Some v else map_find k' m)"
  by (induction m) (auto simp: map_find_def)

lemma map_store_twice [simp]: "map_store k v (map_store k v' m) = map_store k v m"
  by (induction m) auto

lemma map_ordered_map_store [simp]: "map_ordered lt (map_store k v m) = map_ordered lt m"
  by (simp add: map_ordered_def)

lemma set_map_erase: "set (map_erase k m) \<subseteq> set m"
  by (induction m) (auto split: if_splits)

lemma map_ordered_map_erase: "map_ordered lt m \<Longrightarrow> map_ordered lt (map_erase k m)"
  unfolding map_ordered_def
proof (induction m)
  case Nil
  show ?case by simp
next
  case (Cons e m)
  then show ?case using set_map_erase [of k m] by (cases e) auto
qed

lemma map_of_map_erase:
  "distinct (map fst m) \<Longrightarrow> map_of (map_erase k m) = (map_of m)(k := None)"
proof (induction m)
  case Nil
  show ?case by simp
next
  case (Cons e m)
  obtain k' v' where e: "e = (k', v')" by (cases e)
  have none: "map_of m k' = None" using Cons.prems by (simp add: e map_of_eq_None_iff)
  show ?case
  proof (cases "k' = k")
    case True
    then show ?thesis using none by (auto simp: e)
  next
    case False
    then show ?thesis using Cons by (auto simp: e)
  qed
qed

lemma map_find_map_erase:
  "distinct (map fst m) \<Longrightarrow>
     map_find k' (map_erase k m) = (if k' = k then None else map_find k' m)"
  by (simp add: map_find_def map_of_map_erase)

lemma set_map_insert: "set (map_insert lt k v m) = insert (k, v) (set m)"
  by (induction m) (auto split: if_splits)

lemma map_find_map_insert:
  "map_find k m = None \<Longrightarrow>
     map_find k' (map_insert lt k v m) = (if k' = k then Some v else map_find k' m)"
  by (induction m) (auto simp: map_find_def split: if_splits)

lemma map_ordered_map_insert:
  "map_ordered (side_less s) m \<Longrightarrow> map_find k m = None \<Longrightarrow>
     map_ordered (side_less s) (map_insert (side_less s) k v m)"
  unfolding map_ordered_def
proof (induction m)
  case Nil
  show ?case by simp
next
  case (Cons e m)
  obtain k' v' where e: "e = (k', v')" by (cases e)
  have ne: "k' \<noteq> k" and none: "map_find k m = None"
    using Cons.prems(2) by (auto simp: e map_find_def split: if_splits)
  show ?case
  proof (cases "side_less s k k'")
    case True
    then have "\<forall>x \<in> set (map fst m). side_less s k x"
      using Cons.prems(1) by (auto simp: e side_less_def split: if_splits)
    then show ?thesis using True Cons.prems(1) by (simp add: e)
  next
    case False
    then have "side_less s k' k" using ne by (auto simp: side_less_def)
    then show ?thesis
      using False Cons.prems(1) Cons.IH [OF _ none]
      by (auto simp: e set_map_insert)
  qed
qed

section \<open>Sides of the book\<close>

lemma get_side_set_side [simp]:
  "get_side s' (set_side s x b) = (if s' = s then x else get_side s' b)"
  by (auto simp: get_side_def set_side_def)

lemma set_side_fields [simp]:
  "mem (set_side s x b) = mem b"
  "pool (set_side s x b) = pool b"
  by (simp_all add: set_side_def)

lemma get_side_updates [simp]:
  "get_side s (b\<lparr>mem := m\<rparr>) = get_side s b"
  "get_side s (b\<lparr>pool := mp\<rparr>) = get_side s b"
  "get_side s (b\<lparr>order_lookup := ix\<rparr>) = get_side s b"
  by (simp_all add: get_side_def)

lemma sides_ok_iff:
  "sides_ok b cap \<longleftrightarrow>
     (\<forall>s. map_ordered (side_less s) (get_side s b))
     \<and> (\<forall>s p l. map_find p (get_side s b) = Some l \<longrightarrow> level_ok (mem b) cap s p l)"
proof -
  have "side_ok b cap s \<longleftrightarrow>
      map_ordered (side_less s) (get_side s b)
      \<and> (\<forall>p l. map_find p (get_side s b) = Some l \<longrightarrow> level_ok (mem b) cap s p l)" for s
    unfolding side_ok_def by (auto simp: map_find_mem)
  then show ?thesis
    unfolding sides_ok_def by (auto simp: all_bool_eq)
qed

lemma sides_ok_ordered: "sides_ok b cap \<Longrightarrow> map_ordered (side_less s) (get_side s b)"
  by (simp add: sides_ok_iff)

lemma sides_ok_level:
  assumes "sides_ok b cap" and "map_find p (get_side s b) = Some l"
  obtains ns where "is_chain (mem b) l ns" and "chain_at b s p = ns" and "ns \<noteq> []"
    and "total_quantity l = sum_list (map (\<lambda>a. quantity (mem b a)) ns)"
    and "\<And>a. a \<in> set ns \<Longrightarrow> is_buy (mem b a) = s \<and> price (mem b a) = p \<and> a < cap"
proof -
  have "level_ok (mem b) cap s p l" using assms by (simp add: sides_ok_iff)
  then obtain ns where ns: "is_chain (mem b) l ns" "ns \<noteq> []"
      "total_quantity l = sum_list (map (\<lambda>a. quantity (mem b a)) ns)"
      "\<forall>a \<in> set ns. is_buy (mem b a) = s \<and> price (mem b a) = p \<and> a < cap"
    unfolding level_ok_iff by blast
  have "chain_at b s p = ns"
    using assms(2) chain_eq [OF ns(1)] by (simp add: chain_at_def)
  with ns show ?thesis using that by blast
qed

lemma chain_at_payload:
  assumes "sides_ok b cap" and "a \<in> set (chain_at b s p)"
  shows "is_buy (mem b a) = s \<and> price (mem b a) = p \<and> a < cap"
proof (cases "map_find p (get_side s b)")
  case None
  with assms(2) show ?thesis by (simp add: chain_at_def)
next
  case (Some l)
  from sides_ok_level [OF assms(1) Some] assms(2) show ?thesis by metis
qed

lemma has_level_iff: "sides_ok b cap \<Longrightarrow> has_level b s p \<longleftrightarrow> chain_at b s p \<noteq> []"
proof (cases "map_find p (get_side s b)")
  case None
  then show ?thesis by (simp add: has_level_def chain_at_def)
next
  case (Some l)
  assume "sides_ok b cap"
  from sides_ok_level [OF this Some] Some show ?thesis
    by (metis has_level_def option.distinct(1))
qed

lemma unlinked_iff:
  assumes "sides_ok b cap"
  shows "unlinked b a \<longleftrightarrow> (\<forall>s p. a \<notin> set (chain_at b s p))"
proof -
  have "(\<forall>(p, l) \<in> set (get_side s b). a \<notin> set (chain (mem b) l))
      \<longleftrightarrow> (\<forall>p. a \<notin> set (chain_at b s p))" for s
  proof -
    have "(\<forall>(p, l) \<in> set (get_side s b). a \<notin> set (chain (mem b) l))
        \<longleftrightarrow> (\<forall>p l. map_find p (get_side s b) = Some l \<longrightarrow> a \<notin> set (chain (mem b) l))"
      using sides_ok_ordered [OF assms, of s] by (auto simp: map_find_mem)
    also have "\<dots> \<longleftrightarrow> (\<forall>p. a \<notin> set (chain_at b s p))"
    proof (rule all_cong1)
      fix p
      show "(\<forall>l. map_find p (get_side s b) = Some l \<longrightarrow> a \<notin> set (chain (mem b) l))
          \<longleftrightarrow> a \<notin> set (chain_at b s p)"
        by (cases "map_find p (get_side s b)") (simp_all add: chain_at_def)
    qed
    finally show ?thesis .
  qed
  then show ?thesis by (simp add: unlinked_def all_bool_eq)
qed

lemma resting_iff: "sides_ok b cap \<Longrightarrow> resting b a \<longleftrightarrow> \<not> unlinked b a"
  by (auto simp: unlinked_iff resting_def dest: chain_at_payload)

lemma level_frame:
  assumes "level_ok m cap s p l" and "\<And>x. x \<in> set (chain m l) \<Longrightarrow> m' x = m x"
    and "cap \<le> cap'"
  shows "level_ok m' cap' s p l" and "chain m' l = chain m l"
proof -
  from assms(1) obtain ns where ns: "is_chain m l ns" "ns \<noteq> []"
      "total_quantity l = sum_list (map (\<lambda>a. quantity (m a)) ns)"
      "\<forall>a \<in> set ns. is_buy (m a) = s \<and> price (m a) = p \<and> a < cap"
    unfolding level_ok_iff by blast
  have eq: "\<And>x. x \<in> set ns \<Longrightarrow> m' x = m x"
    using assms(2) chain_eq [OF ns(1)] by simp
  have c': "is_chain m' l ns"
    using ns(1) by (rule is_chain_cong) (simp add: eq)
  have "sum_list (map (\<lambda>a. quantity (m' a)) ns) = sum_list (map (\<lambda>a. quantity (m a)) ns)"
    by (rule arg_cong [where f = sum_list], rule map_cong) (simp_all add: eq)
  then have "total_quantity l = sum_list (map (\<lambda>a. quantity (m' a)) ns)"
    using ns(3) by (simp only:)
  then show "level_ok m' cap' s p l"
    unfolding level_ok_iff using c' ns(2,4) assms(3) eq
    by (intro exI [of _ ns]) auto
  show "chain m' l = chain m l"
    using chain_eq [OF c'] chain_eq [OF ns(1)] by simp
qed

lemma sides_ok_update:
  assumes ok: "sides_ok b cap" and cap: "cap \<le> cap'"
    and oth: "get_side (\<not> s) b' = get_side (\<not> s) b"
    and ord: "map_ordered (side_less s) (get_side s b')"
    and same: "\<And>p'. p' \<noteq> p \<Longrightarrow> map_find p' (get_side s b') = map_find p' (get_side s b)"
    and lvl: "\<And>l'. map_find p (get_side s b') = Some l' \<Longrightarrow> level_ok (mem b') cap' s p l'"
    and frame: "\<And>s' p' x. s' \<noteq> s \<or> p' \<noteq> p \<Longrightarrow> x \<in> set (chain_at b s' p') \<Longrightarrow>
                  mem b' x = mem b x"
  shows "sides_ok b' cap'"
    and "\<And>s' p'. s' \<noteq> s \<or> p' \<noteq> p \<Longrightarrow> chain_at b' s' p' = chain_at b s' p'"
    and "\<And>s' p'. s' \<noteq> s \<or> p' \<noteq> p \<Longrightarrow> total_at b' s' p' = total_at b s' p'"
proof -
  have find: "map_find p' (get_side s' b') = map_find p' (get_side s' b)"
    if "s' \<noteq> s \<or> p' \<noteq> p" for s' p'
    using that oth same [of p'] by (cases "s' = s") auto
  have other: "level_ok (mem b') cap' s' p' l \<and> chain (mem b') l = chain (mem b) l"
    if ne: "s' \<noteq> s \<or> p' \<noteq> p" and l: "map_find p' (get_side s' b) = Some l" for s' p' l
  proof -
    have lo: "level_ok (mem b) cap s' p' l" using ok l by (simp add: sides_ok_iff)
    have "chain_at b s' p' = chain (mem b) l" using l by (simp add: chain_at_def)
    then have fr: "\<And>x. x \<in> set (chain (mem b) l) \<Longrightarrow> mem b' x = mem b x"
      using frame [OF ne] by simp
    from level_frame [OF lo fr cap] show ?thesis by simp
  qed
  show "sides_ok b' cap'"
    unfolding sides_ok_iff
  proof (intro conjI allI impI)
    fix s'
    show "map_ordered (side_less s') (get_side s' b')"
      using ord oth sides_ok_ordered [OF ok, of s'] by (cases "s' = s") auto
  next
    fix s' p' l
    assume l: "map_find p' (get_side s' b') = Some l"
    show "level_ok (mem b') cap' s' p' l"
    proof (cases "s' = s \<and> p' = p")
      case True
      then show ?thesis using lvl l by simp
    next
      case False
      then have ne: "s' \<noteq> s \<or> p' \<noteq> p" by simp
      then show ?thesis using other [OF ne] l find [OF ne] by simp
    qed
  qed
  show "chain_at b' s' p' = chain_at b s' p'" if ne: "s' \<noteq> s \<or> p' \<noteq> p" for s' p'
    using other [OF ne] find [OF ne]
    by (auto simp: chain_at_def split: option.splits)
  show "total_at b' s' p' = total_at b s' p'" if ne: "s' \<noteq> s \<or> p' \<noteq> p" for s' p'
    using find [OF ne] by (simp add: total_at_def)
qed

lemma sides_ok_frame:
  assumes ok: "sides_ok b cap" and cap: "cap \<le> cap'"
    and sides: "\<And>s. get_side s b' = get_side s b"
    and frame: "\<And>s p x. x \<in> set (chain_at b s p) \<Longrightarrow> mem b' x = mem b x"
  shows "sides_ok b' cap'"
    and "\<And>s p. chain_at b' s p = chain_at b s p"
    and "\<And>s p. total_at b' s p = total_at b s p"
proof -
  have lv: "level_ok (mem b') cap' s p l \<and> chain (mem b') l = chain (mem b) l"
    if l: "map_find p (get_side s b) = Some l" for s p l
  proof -
    have lo: "level_ok (mem b) cap s p l" using ok l by (simp add: sides_ok_iff)
    have "chain_at b s p = chain (mem b) l" using l by (simp add: chain_at_def)
    then have fr: "\<And>x. x \<in> set (chain (mem b) l) \<Longrightarrow> mem b' x = mem b x"
      using frame [of _ s p] by simp
    from level_frame [OF lo fr cap] show ?thesis by simp
  qed
  show "sides_ok b' cap'"
    unfolding sides_ok_iff using lv sides_ok_ordered [OF ok] by (simp add: sides)
  show "\<And>s p. chain_at b' s p = chain_at b s p"
    using lv by (auto simp: chain_at_def sides split: option.splits)
  show "\<And>s p. total_at b' s p = total_at b s p"
    by (simp add: total_at_def sides)
qed

lemma detach_spec:
  assumes ok: "sides_ok b cap" and r: "resting b a"
  shows "sides_ok (detach a b) cap"
    and "\<And>s p. chain_at (detach a b) s p =
          (if s = is_buy (mem b a) \<and> p = price (mem b a)
           then remove1 a (chain_at b s p) else chain_at b s p)"
    and "\<And>s p. total_at (detach a b) s p =
          (if s = is_buy (mem b a) \<and> p = price (mem b a)
           then total_at b s p - quantity (mem b a) else total_at b s p)"
    and "\<And>x. order_of (mem (detach a b) x) = order_of (mem b x)"
    and "pool (detach a b) = pool b"
    and "order_lookup (detach a b) = order_lookup b"
    and "\<And>x. x \<notin> set (chain_at b (is_buy (mem b a)) (price (mem b a))) \<Longrightarrow>
          mem (detach a b) x = mem b x"
proof -
  define s where "s = is_buy (mem b a)"
  define p where "p = price (mem b a)"
  define q where "q = quantity (mem b a)"
  have ain: "a \<in> set (chain_at b s p)" using r by (simp add: resting_def s_def p_def)
  then obtain l where l: "map_find p (get_side s b) = Some l"
    by (cases "map_find p (get_side s b)") (auto simp: chain_at_def)
  from sides_ok_level [OF ok l] obtain ns where
    ch: "is_chain (mem b) l ns" and ca: "chain_at b s p = ns" and
    tot: "total_quantity l = sum_list (map (\<lambda>a. quantity (mem b a)) ns)" and
    pay: "\<And>x. x \<in> set ns \<Longrightarrow> is_buy (mem b x) = s \<and> price (mem b x) = p \<and> x < cap"
    by metis
  have an: "a \<in> set ns" using ain ca by simp
  obtain l1 m1 where ul: "unlink a q l (mem b) = (l1, m1)"
    by (cases "unlink a q l (mem b)")
  note U = unlink_chain [OF ch an ul]
  define ns1 where "ns1 = remove1 a ns"
  define side1 where "side1 = (if head l1 = None then map_erase p (get_side s b)
                               else map_store p l1 (get_side s b))"
  have b': "detach a b = set_side s side1 (b\<lparr>mem := m1\<rparr>)"
    using l ul by (simp add: detach_def Let_def side1_def s_def [symmetric] p_def [symmetric]
        q_def [symmetric])
  have hd: "head l1 = None \<longleftrightarrow> ns1 = []"
    using is_chain_head [OF U(1)] by (auto simp: ns1_def split: list.splits)
  have ord: "map_ordered (side_less s) (get_side s b)" by (rule sides_ok_ordered [OF ok])
  have find1: "map_find p' side1 =
      (if p' = p then (if ns1 = [] then None else Some l1) else map_find p' (get_side s b))" for p'
    using l map_ordered_distinct [OF ord]
    by (simp add: side1_def hd map_find_map_erase map_find_map_store)
  have ord1: "map_ordered (side_less s) side1"
    using ord by (simp add: side1_def map_ordered_map_erase)
  have qeq: "\<And>x. quantity (m1 x) = quantity (mem b x)"
    and beq: "\<And>x. is_buy (m1 x) = is_buy (mem b x)"
    and peq: "\<And>x. price (m1 x) = price (mem b x)"
    using order_of_fields [OF U(4)] by simp_all
  have sum1: "sum_list (map (\<lambda>x. quantity (m1 x)) ns1) = total_quantity l - q"
  proof -
    have "sum_list (map (\<lambda>x. quantity (mem b x)) ns)
        = quantity (mem b a) + sum_list (map (\<lambda>x. quantity (mem b x)) (remove1 a ns))"
      using an by (rule sum_list_map_remove1)
    then show ?thesis by (simp add: tot qeq ns1_def q_def)
  qed
  have lvl1: "level_ok m1 cap s p l1" if "ns1 \<noteq> []"
    unfolding level_ok_iff
  proof (intro exI [of _ ns1] conjI ballI)
    show "is_chain m1 l1 ns1" using U(1) by (simp add: ns1_def)
    show "ns1 \<noteq> []" by (rule that)
    show "total_quantity l1 = sum_list (map (\<lambda>x. quantity (m1 x)) ns1)"
      using U(2) sum1 by simp
  next
    fix x assume "x \<in> set ns1"
    then have "x \<in> set ns" using set_remove1_subset [of a ns] by (auto simp: ns1_def)
    then show "is_buy (m1 x) = s" "price (m1 x) = p" "x < cap"
      using pay [of x] by (simp_all add: beq peq)
  qed
  have frame: "mem (detach a b) x = mem b x"
    if "s' \<noteq> s \<or> p' \<noteq> p" "x \<in> set (chain_at b s' p')" for s' p' x
  proof -
    have "is_buy (mem b x) = s' \<and> price (mem b x) = p'"
      using chain_at_payload [OF ok that(2)] by simp
    with that(1) pay [of x] have "x \<notin> set ns" by auto
    then show ?thesis using U(3) by (simp add: b')
  qed
  have p1: "get_side (\<not> s) (detach a b) = get_side (\<not> s) b"
    by (simp add: b')
  have p2: "map_ordered (side_less s) (get_side s (detach a b))"
    using ord1 by (simp add: b')
  have p3: "map_find p' (get_side s (detach a b)) = map_find p' (get_side s b)"
    if "p' \<noteq> p" for p'
    using that by (simp add: b' find1)
  have p4: "level_ok (mem (detach a b)) cap s p l'"
    if "map_find p (get_side s (detach a b)) = Some l'" for l'
    using that lvl1 by (auto simp: b' find1 split: if_splits)
  note upd = sides_ok_update [where s = s and p = p and b' = "detach a b",
      OF ok order_refl p1 p2 p3 p4 frame]
  show "sides_ok (detach a b) cap" by (rule upd(1))
  have here: "chain_at (detach a b) s p = ns1"
  proof (cases "ns1 = []")
    case True
    then show ?thesis by (simp add: chain_at_def b' find1)
  next
    case False
    have "is_chain m1 l1 ns1" using U(1) by (simp add: ns1_def)
    from chain_eq [OF this] False show ?thesis by (simp add: chain_at_def b' find1)
  qed
  show "chain_at (detach a b) s' p' =
      (if s' = is_buy (mem b a) \<and> p' = price (mem b a)
       then remove1 a (chain_at b s' p') else chain_at b s' p')" for s' p'
    using upd(2) [where s' = s' and p' = p'] here ca
    by (auto simp: s_def [symmetric] p_def [symmetric] ns1_def)
  have toth: "total_at (detach a b) s p = total_at b s p - q"
  proof (cases "ns1 = []")
    case True
    then have "total_quantity l - q = 0" using sum1 by simp
    then show ?thesis using True l by (simp add: total_at_def b' find1)
  next
    case False
    then show ?thesis using l U(2) by (simp add: total_at_def b' find1)
  qed
  show "total_at (detach a b) s' p' =
      (if s' = is_buy (mem b a) \<and> p' = price (mem b a)
       then total_at b s' p' - quantity (mem b a) else total_at b s' p')" for s' p'
    using upd(3) [where s' = s' and p' = p'] toth
    by (auto simp: s_def [symmetric] p_def [symmetric] q_def [symmetric])
  show "order_of (mem (detach a b) x) = order_of (mem b x)" for x
    using U(4) by (simp add: b')
  show "pool (detach a b) = pool b" by (simp add: b')
  show "order_lookup (detach a b) = order_lookup b" by (simp add: b')
  show "mem (detach a b) x = mem b x"
    if "x \<notin> set (chain_at b (is_buy (mem b a)) (price (mem b a)))" for x
    using that U(3) [of x] ca by (simp add: b' s_def p_def)
qed

lemma is_chain_empty_level: "is_chain m empty_level []"
  by (simp add: is_chain_def empty_level_def)

lemma attach_spec:
  assumes ok: "sides_ok b cap" and u: "unlinked b a" and lt: "a < cap"
  shows "sides_ok (attach a b) cap"
    and "\<And>s p. chain_at (attach a b) s p =
          (if s = is_buy (mem b a) \<and> p = price (mem b a)
           then chain_at b s p @ [a] else chain_at b s p)"
    and "\<And>s p. total_at (attach a b) s p =
          (if s = is_buy (mem b a) \<and> p = price (mem b a)
           then total_at b s p + quantity (mem b a) else total_at b s p)"
    and "\<And>x. order_of (mem (attach a b) x) = order_of (mem b x)"
    and "pool (attach a b) = pool b"
    and "order_lookup (attach a b) = order_lookup b"
proof -
  define s where "s = is_buy (mem b a)"
  define p where "p = price (mem b a)"
  define q where "q = quantity (mem b a)"
  have ord: "map_ordered (side_less s) (get_side s b)" by (rule sides_ok_ordered [OF ok])
  have un: "\<And>s' p'. a \<notin> set (chain_at b s' p')"
    using u unlinked_iff [OF ok] by simp
  obtain side level where ms: "map_subscript (side_less s) p (get_side s b) = (side, level)"
    by (cases "map_subscript (side_less s) p (get_side s b)")
  define ns where "ns = chain_at b s p"
  have sub: "is_chain (mem b) level ns
      \<and> total_quantity level = sum_list (map (\<lambda>x. quantity (mem b x)) ns)
      \<and> total_quantity level = total_at b s p
      \<and> map_ordered (side_less s) side
      \<and> (\<forall>p'. map_find p' side = (if p' = p then Some level else map_find p' (get_side s b)))"
  proof (cases "map_find p (get_side s b)")
    case None
    then have "side = map_insert (side_less s) p empty_level (get_side s b)"
      and "level = empty_level"
      using ms by (simp_all add: map_subscript_def)
    moreover have "ns = []" using None by (simp add: ns_def chain_at_def)
    ultimately show ?thesis
      using None ord
      by (simp add: is_chain_empty_level map_ordered_map_insert map_find_map_insert
          total_at_def) (simp add: empty_level_def)
  next
    case (Some l)
    then have sl: "side = get_side s b" "level = l"
      using ms by (simp_all add: map_subscript_def)
    from sides_ok_level [OF ok Some] show ?thesis
      using Some ord by (auto simp: sl ns_def total_at_def)
  qed
  then have ch: "is_chain (mem b) level ns"
    and tot: "total_quantity level = sum_list (map (\<lambda>x. quantity (mem b x)) ns)"
    and tota: "total_quantity level = total_at b s p"
    and ord1: "map_ordered (side_less s) side"
    and find1: "\<And>p'. map_find p' side = (if p' = p then Some level else map_find p' (get_side s b))"
    by blast+
  have an: "a \<notin> set ns" using un by (simp add: ns_def)
  have pay: "\<And>x. x \<in> set ns \<Longrightarrow> is_buy (mem b x) = s \<and> price (mem b x) = p \<and> x < cap"
    using chain_at_payload [OF ok] by (simp add: ns_def)
  obtain l1 m1 where pb: "push_back a q level (mem b) = (l1, m1)"
    by (cases "push_back a q level (mem b)")
  note P = push_back_chain [OF ch an pb]
  have b': "attach a b = set_side s (map_store p l1 side) (b\<lparr>mem := m1\<rparr>)"
    using ms pb by (simp add: attach_def Let_def s_def [symmetric] p_def [symmetric]
        q_def [symmetric])
  have find2: "map_find p' (map_store p l1 side) =
      (if p' = p then Some l1 else map_find p' (get_side s b))" for p'
    by (simp add: map_find_map_store find1)
  have qeq: "\<And>x. quantity (m1 x) = quantity (mem b x)"
    and beq: "\<And>x. is_buy (m1 x) = is_buy (mem b x)"
    and peq: "\<And>x. price (m1 x) = price (mem b x)"
    using order_of_fields [OF P(4)] by simp_all
  have lvl1: "level_ok m1 cap s p l1"
    unfolding level_ok_iff
  proof (intro exI [of _ "ns @ [a]"] conjI ballI)
    show "is_chain m1 l1 (ns @ [a])" by (rule P(1))
    show "ns @ [a] \<noteq> []" by simp
    show "total_quantity l1 = sum_list (map (\<lambda>x. quantity (m1 x)) (ns @ [a]))"
      using P(2) tot by (simp add: qeq q_def)
  next
    fix x assume "x \<in> set (ns @ [a])"
    then show "is_buy (m1 x) = s" "price (m1 x) = p" "x < cap"
      using pay [of x] lt by (auto simp: beq peq s_def p_def)
  qed
  have frame: "mem (attach a b) x = mem b x"
    if "s' \<noteq> s \<or> p' \<noteq> p" "x \<in> set (chain_at b s' p')" for s' p' x
  proof -
    have "is_buy (mem b x) = s' \<and> price (mem b x) = p'"
      using chain_at_payload [OF ok that(2)] by simp
    with that(1) pay [of x] have "x \<notin> set ns" by auto
    moreover have "x \<noteq> a" using that(2) un by auto
    ultimately show ?thesis using P(3) by (simp add: b')
  qed
  have p1: "get_side (\<not> s) (attach a b) = get_side (\<not> s) b"
    by (simp add: b')
  have p2: "map_ordered (side_less s) (get_side s (attach a b))"
    using ord1 by (simp add: b')
  have p3: "map_find p' (get_side s (attach a b)) = map_find p' (get_side s b)"
    if "p' \<noteq> p" for p'
    using that by (simp add: b' find2)
  have p4: "level_ok (mem (attach a b)) cap s p l'"
    if "map_find p (get_side s (attach a b)) = Some l'" for l'
    using that lvl1 by (simp add: b' find2)
  note upd = sides_ok_update [where s = s and p = p and b' = "attach a b",
      OF ok order_refl p1 p2 p3 p4 frame]
  show "sides_ok (attach a b) cap" by (rule upd(1))
  have here: "chain_at (attach a b) s p = ns @ [a]"
    using chain_eq [OF P(1)] by (simp add: chain_at_def b' find2)
  show "chain_at (attach a b) s' p' =
      (if s' = is_buy (mem b a) \<and> p' = price (mem b a)
       then chain_at b s' p' @ [a] else chain_at b s' p')" for s' p'
    using upd(2) [where s' = s' and p' = p'] here
    by (auto simp: s_def [symmetric] p_def [symmetric] ns_def)
  have toth: "total_at (attach a b) s p = total_at b s p + q"
    using P(2) tota by (simp add: total_at_def b' find2)
  show "total_at (attach a b) s' p' =
      (if s' = is_buy (mem b a) \<and> p' = price (mem b a)
       then total_at b s' p' + quantity (mem b a) else total_at b s' p')" for s' p'
    using upd(3) [where s' = s' and p' = p'] toth
    by (auto simp: s_def [symmetric] p_def [symmetric] q_def [symmetric])
  show "order_of (mem (attach a b) x) = order_of (mem b x)" for x
    using P(4) by (simp add: b')
  show "pool (attach a b) = pool b" by (simp add: b')
  show "order_lookup (attach a b) = order_lookup b" by (simp add: b')
qed

section \<open>The operations in terms of their halves\<close>

lemma set_side_set_side [simp]: "set_side s x (set_side s y b) = set_side s x b"
  by (simp add: set_side_def)

lemma set_side_mem_update [simp]: "(set_side s x b)\<lparr>mem := m\<rparr> = set_side s x (b\<lparr>mem := m\<rparr>)"
  by (simp add: set_side_def)

lemma set_side_other_updates:
  "set_side s x (b\<lparr>order_lookup := ix, pool := mp, mem := m\<rparr>)
     = (set_side s x (b\<lparr>mem := m\<rparr>))\<lparr>order_lookup := ix, pool := mp\<rparr>"
  by (simp add: set_side_def)

lemma order_of_Node_of [simp]: "order_of (Node_of ord) = ord"
  by (simp add: order_of_def Node_of_def)

lemma Node_of_fields [simp]:
  "is_buy (Node_of ord) = is_buy ord" "price (Node_of ord) = price ord"
  "quantity (Node_of ord) = quantity ord" "order_id (Node_of ord) = order_id ord"
  by (simp_all add: Node_of_def)

lemma unlink_order_of:
  "unlink node q l m = (l', m') \<Longrightarrow> order_of (m' x) = order_of (m x)"
  by (auto simp: unlink_def Let_def split: option.splits)

lemma add_order_attach:
  "add_order ord b =
     (let (node, pool1) = allocate (pool b)
      in attach node (b\<lparr>order_lookup := (order_lookup b)(order_id ord \<mapsto> node),
                        pool := pool1, mem := (mem b)(node := Node_of ord)\<rparr>))"
  by (simp add: add_order_def attach_def Let_def split: prod.splits)

lemma cancel_order_detach:
  "cancel_order oid b =
     (case order_lookup b oid of
        None \<Rightarrow> (b, False)
      | Some node \<Rightarrow>
          if has_level b (is_buy (mem b node)) (price (mem b node))
          then ((detach node b)\<lparr>order_lookup := (order_lookup b)(oid := None),
                                 pool := deallocate node (pool b)\<rparr>, True)
          else (b, False))"
  by (auto simp: cancel_order_def detach_def has_level_def Let_def set_side_other_updates
      split: option.splits prod.splits)

lemma amend_order_reprice:
  assumes "order_lookup b oid = Some node" and "q \<noteq> 0"
    and "has_level b (is_buy (mem b node)) (price (mem b node))"
    and "new_price \<noteq> price (mem b node)"
  shows "amend_order oid new_price q b =
     (attach node
        ((detach node b)\<lparr>mem := (mem (detach node b))
            (node := (mem (detach node b) node)\<lparr>price := new_price, quantity := q\<rparr>)\<rparr>),
      True)"
proof -
  obtain level where l: "map_find (price (mem b node)) (get_side (is_buy (mem b node)) b) = Some level"
    using assms(3) by (auto simp: has_level_def)
  obtain l1 m1 where ul: "unlink node (quantity (mem b node)) level (mem b) = (l1, m1)"
    by (cases "unlink node (quantity (mem b node)) level (mem b)")
  have "is_buy (m1 node) = is_buy (mem b node)"
    using order_of_fields [OF unlink_order_of [OF ul, of node]] by simp
  then show ?thesis
    using assms(1,2,4) l ul
    by (simp add: amend_order_def detach_def attach_def Let_def split: prod.splits)
qed

lemma amend_order_requantity:
  assumes "order_lookup b oid = Some node" and "q \<noteq> 0"
    and "map_find (price (mem b node)) (get_side (is_buy (mem b node)) b) = Some level"
  shows "amend_order oid (price (mem b node)) q b =
     (set_side (is_buy (mem b node))
        (map_store (price (mem b node))
           (level\<lparr>total_quantity := total_quantity level - quantity (mem b node) + q\<rparr>)
           (get_side (is_buy (mem b node)) b))
        (b\<lparr>mem := (mem b)(node := (mem b node)\<lparr>quantity := q\<rparr>)\<rparr>),
      True)"
  using assms by (simp add: amend_order_def Let_def)

section \<open>The invariant\<close>

lemma index_ok_iff:
  "index_ok b \<longleftrightarrow>
     (\<forall>oid a. order_lookup b oid = Some a \<longrightarrow> order_id (mem b a) = oid \<and> resting b a)"
  by (auto simp: index_ok_def dom_def split: option.splits)

lemma capacity_allocate_block:
  "capacity (mp\<lparr>blocks := blocks mp @ [x]\<rparr>) = capacity mp + BLOCK_SIZE"
  by (simp add: capacity_def)

lemma capacity_free_list [simp]: "capacity (mp\<lparr>free_list := fl\<rparr>) = capacity mp"
  by (simp add: capacity_def)

lemma allocate_spec:
  assumes ok: "sides_ok b (capacity (pool b))" and po: "pool_ok b"
    and al: "allocate (pool b) = (node, pool1)"
  shows "capacity (pool b) \<le> capacity pool1"
    and "node < capacity pool1"
    and "unlinked b node"
    and "distinct (free_list pool1)"
    and "node \<notin> set (free_list pool1)"
    and "\<And>x. x \<in> set (free_list pool1) \<Longrightarrow> x < capacity pool1 \<and> unlinked b x"
proof -
  have fresh: "unlinked b x" if "capacity (pool b) \<le> x" for x
    using that chain_at_payload [OF ok, of x] unlinked_iff [OF ok, of x] by fastforce
  have main: "capacity (pool b) \<le> capacity pool1 \<and> node < capacity pool1 \<and> unlinked b node
      \<and> distinct (free_list pool1) \<and> node \<notin> set (free_list pool1)
      \<and> (\<forall>x \<in> set (free_list pool1). x < capacity pool1 \<and> unlinked b x)"
  proof (cases "free_list (pool b) = []")
    case True
    have n: "node = capacity (pool b)"
      and p1: "pool1 = (pool b)\<lparr>blocks := blocks (pool b) @ [capacity (pool b)],
          free_list := [Suc (capacity (pool b))..<capacity (pool b) + BLOCK_SIZE]\<rparr>"
      using al allocate_empty [OF True] by auto
    have c1: "capacity pool1 = capacity (pool b) + BLOCK_SIZE"
      by (simp add: p1 capacity_allocate_block)
    show ?thesis
      using fresh by (simp add: c1 n) (simp add: p1 BLOCK_SIZE_def)
  next
    case False
    then obtain a fl where fl: "free_list (pool b) = a # fl" by (cases "free_list (pool b)") auto
    have n: "node = a" and p1: "pool1 = (pool b)\<lparr>free_list := fl\<rparr>"
      using al allocate_nonempty [OF False] by (simp_all add: fl)
    have c1: "capacity pool1 = capacity (pool b)" by (simp add: p1 capacity_def)
    show ?thesis
      using po by (auto simp: pool_ok_def fl c1 n p1)
  qed
  show "capacity (pool b) \<le> capacity pool1" "node < capacity pool1" "unlinked b node"
    "distinct (free_list pool1)" "node \<notin> set (free_list pool1)"
    "\<And>x. x \<in> set (free_list pool1) \<Longrightarrow> x < capacity pool1 \<and> unlinked b x"
    using main by blast+
qed

lemma order_of_eq_fields:
  "order_of n = ord \<Longrightarrow>
     order_id n = order_id ord \<and> is_buy n = is_buy ord \<and> price n = price ord
     \<and> quantity n = quantity ord"
  by (auto simp: order_of_def)

lemma wf_bookD:
  assumes "wf_book b"
  shows "sides_ok b (capacity (pool b))" and "pool_ok b" and "index_ok b"
  using assms by (simp_all add: wf_book_def)

lemma index_okD:
  assumes "index_ok b" and "order_lookup b oid = Some a"
  shows "order_id (mem b a) = oid" and "resting b a"
  using assms by (auto simp: index_ok_iff)

lemma add_order_spec:
  assumes wf: "wf_book b" and al: "allocate (pool b) = (node, pool1)"
  shows "wf_book (add_order ord b)"
    and "\<And>s p. chain_at (add_order ord b) s p =
          (if s = is_buy ord \<and> p = price ord then chain_at b s p @ [node] else chain_at b s p)"
    and "\<And>s p. total_at (add_order ord b) s p =
          (if s = is_buy ord \<and> p = price ord then total_at b s p + quantity ord
           else total_at b s p)"
    and "order_lookup (add_order ord b) = (order_lookup b)(order_id ord \<mapsto> node)"
    and "\<And>x. order_of (mem (add_order ord b) x) = (if x = node then ord else order_of (mem b x))"
    and "unlinked b node"
    and "pool (add_order ord b) = pool1"
proof -
  note ok = wf_bookD(1) [OF wf] and po = wf_bookD(2) [OF wf] and ix = wf_bookD(3) [OF wf]
  note A = allocate_spec [OF ok po al]
  define b0 where "b0 = b\<lparr>order_lookup := (order_lookup b)(order_id ord \<mapsto> node),
      pool := pool1, mem := (mem b)(node := Node_of ord)\<rparr>"
  define b' where "b' = add_order ord b"
  have b': "b' = attach node b0"
    by (simp add: b'_def add_order_attach al b0_def)
  have un: "\<And>s p. node \<notin> set (chain_at b s p)"
    using A(3) unlinked_iff [OF ok] by simp
  have s0: "\<And>s. get_side s b0 = get_side s b" by (simp add: b0_def get_side_def)
  have f0: "\<And>s p x. x \<in> set (chain_at b s p) \<Longrightarrow> mem b0 x = mem b x"
    using un by (auto simp: b0_def)
  note F = sides_ok_frame [where b' = b0, OF ok A(1) s0 f0]
  have u0: "unlinked b0 node" using unlinked_iff [OF F(1)] un F(2) by simp
  note T = attach_spec [OF F(1) u0 A(2)]
  have m0: "mem b0 node = Node_of ord" by (simp add: b0_def)
  have ch: "chain_at b' s p =
      (if s = is_buy ord \<and> p = price ord then chain_at b s p @ [node] else chain_at b s p)" for s p
    by (simp add: b' T(2) F(2) m0)
  have tt: "total_at b' s p =
      (if s = is_buy ord \<and> p = price ord then total_at b s p + quantity ord
       else total_at b s p)" for s p
    by (simp add: b' T(3) F(3) m0)
  have lk: "order_lookup b' = (order_lookup b)(order_id ord \<mapsto> node)"
    by (simp add: b' T(6)) (simp add: b0_def)
  have oo: "order_of (mem b' x) = (if x = node then ord else order_of (mem b x))" for x
    by (simp add: b' T(4)) (simp add: b0_def)
  have pl: "pool b' = pool1" by (simp add: b' T(5)) (simp add: b0_def)
  have ok': "sides_ok b' (capacity (pool b'))" using T(1) by (simp add: pl) (simp add: b')
  have po': "pool_ok b'"
    unfolding pool_ok_def pl
  proof (intro conjI ballI)
    show "distinct (free_list pool1)" by (rule A(4))
  next
    fix x assume x: "x \<in> set (free_list pool1)"
    then show "x < capacity pool1" using A(6) by simp
    have "x \<noteq> node" using x A(5) by auto
    moreover have "\<And>s p. x \<notin> set (chain_at b s p)"
      using A(6) [OF x] unlinked_iff [OF ok] by simp
    ultimately show "unlinked b' x"
      using unlinked_iff [OF ok'] by (simp add: ch)
  qed
  have ix': "index_ok b'"
    unfolding index_ok_iff
  proof (intro allI impI)
    fix oid a assume "order_lookup b' oid = Some a"
    then have l: "((order_lookup b)(order_id ord \<mapsto> node)) oid = Some a" by (simp add: lk)
    show "order_id (mem b' a) = oid \<and> resting b' a"
    proof (cases "oid = order_id ord")
      case True
      then have a: "a = node" using l by simp
      have "order_of (mem b' node) = ord" by (simp add: oo)
      from order_of_eq_fields [OF this] show ?thesis
        by (simp add: a True resting_def ch)
    next
      case False
      then have la: "order_lookup b oid = Some a" using l by simp
      note I = index_okD [OF ix la]
      have "\<not> unlinked b a" using I(2) resting_iff [OF ok] by simp
      then have an: "a \<noteq> node" using A(3) by auto
      then have "order_of (mem b' a) = order_of (mem b a)" by (simp add: oo)
      from order_of_fields [OF this] I show ?thesis
        by (auto simp: resting_def ch)
    qed
  qed
  show "wf_book (add_order ord b)"
    using ok' po' ix' by (simp add: wf_book_def b'_def)
  show "\<And>s p. chain_at (add_order ord b) s p =
      (if s = is_buy ord \<and> p = price ord then chain_at b s p @ [node] else chain_at b s p)"
    using ch by (simp add: b'_def)
  show "\<And>s p. total_at (add_order ord b) s p =
      (if s = is_buy ord \<and> p = price ord then total_at b s p + quantity ord
       else total_at b s p)"
    using tt by (simp add: b'_def)
  show "order_lookup (add_order ord b) = (order_lookup b)(order_id ord \<mapsto> node)"
    using lk by (simp add: b'_def)
  show "\<And>x. order_of (mem (add_order ord b) x) = (if x = node then ord else order_of (mem b x))"
    using oo by (simp add: b'_def)
  show "unlinked b node" by (rule A(3))
  show "pool (add_order ord b) = pool1" using pl by (simp add: b'_def)
qed

lemma chain_at_updates [simp]:
  "chain_at (b\<lparr>order_lookup := ix\<rparr>) s p = chain_at b s p"
  "chain_at (b\<lparr>pool := mp\<rparr>) s p = chain_at b s p"
  by (simp_all add: chain_at_def split: option.splits)

lemma total_at_updates [simp]:
  "total_at (b\<lparr>order_lookup := ix\<rparr>) s p = total_at b s p"
  "total_at (b\<lparr>pool := mp\<rparr>) s p = total_at b s p"
  by (simp_all add: total_at_def)

lemma sides_ok_updates [simp]:
  "sides_ok (b\<lparr>order_lookup := ix\<rparr>) cap = sides_ok b cap"
  "sides_ok (b\<lparr>pool := mp\<rparr>) cap = sides_ok b cap"
  by (simp_all add: sides_ok_def side_ok_def)

lemma chain_at_distinct: "sides_ok b cap \<Longrightarrow> distinct (chain_at b s p)"
proof (cases "map_find p (get_side s b)")
  case None
  then show ?thesis by (simp add: chain_at_def)
next
  case (Some l)
  assume "sides_ok b cap"
  from sides_ok_level [OF this Some] show ?thesis
    by (metis is_chain_distinct)
qed

lemma capacity_deallocate [simp]: "capacity (deallocate a mp) = capacity mp"
  by (simp add: deallocate_def)

lemma cancel_order_spec:
  assumes wf: "wf_book b" and l: "order_lookup b oid = Some a"
  shows "snd (cancel_order oid b)"
    and "wf_book (fst (cancel_order oid b))"
    and "\<And>s p. chain_at (fst (cancel_order oid b)) s p =
          (if s = is_buy (mem b a) \<and> p = price (mem b a)
           then remove1 a (chain_at b s p) else chain_at b s p)"
    and "\<And>s p. total_at (fst (cancel_order oid b)) s p =
          (if s = is_buy (mem b a) \<and> p = price (mem b a)
           then total_at b s p - quantity (mem b a) else total_at b s p)"
    and "order_lookup (fst (cancel_order oid b)) = (order_lookup b)(oid := None)"
    and "\<And>x. order_of (mem (fst (cancel_order oid b)) x) = order_of (mem b x)"
    and "pool (fst (cancel_order oid b)) = deallocate a (pool b)"
proof -
  note ok = wf_bookD(1) [OF wf] and po = wf_bookD(2) [OF wf] and ix = wf_bookD(3) [OF wf]
  note I = index_okD [OF ix l]
  define s where "s = is_buy (mem b a)"
  define p where "p = price (mem b a)"
  have ain: "a \<in> set (chain_at b s p)" using I(2) by (simp add: resting_def s_def p_def)
  then have hl: "has_level b s p" using has_level_iff [OF ok, of s p] by auto
  note D = detach_spec [OF ok I(2)]
  define b' where "b' = (detach a b)\<lparr>order_lookup := (order_lookup b)(oid := None),
      pool := deallocate a (pool b)\<rparr>"
  have c: "cancel_order oid b = (b', True)"
    using l hl by (simp add: cancel_order_detach b'_def s_def p_def)
  have ch: "chain_at b' s' p' =
      (if s' = s \<and> p' = p then remove1 a (chain_at b s' p') else chain_at b s' p')" for s' p'
    by (simp add: b'_def D(2) s_def p_def)
  have tt: "total_at b' s' p' =
      (if s' = s \<and> p' = p then total_at b s' p' - quantity (mem b a) else total_at b s' p')"
    for s' p'
    by (simp add: b'_def D(3) s_def p_def)
  have oo: "order_of (mem b' x) = order_of (mem b x)" for x
    by (simp add: b'_def D(4))
  have lk: "order_lookup b' = (order_lookup b)(oid := None)" by (simp add: b'_def)
  have pl: "pool b' = deallocate a (pool b)" by (simp add: b'_def)
  have ok': "sides_ok b' (capacity (pool b'))"
    using D(1) by (simp add: pl) (simp add: b'_def)
  have ua: "a \<notin> set (chain_at b' s' p')" for s' p'
  proof (cases "s' = s \<and> p' = p")
    case True
    then show ?thesis
      using chain_at_distinct [OF ok, of s' p'] by (simp add: ch)
  next
    case False
    have "a \<notin> set (chain_at b s' p')"
    proof
      assume "a \<in> set (chain_at b s' p')"
      from chain_at_payload [OF ok this] False show False by (simp add: s_def p_def)
    qed
    then show ?thesis using False by (auto simp: ch)
  qed
  have sub: "set (chain_at b' s' p') \<subseteq> set (chain_at b s' p')" for s' p'
    using set_remove1_subset [of a "chain_at b s' p'"] by (auto simp: ch)
  have po': "pool_ok b'"
    unfolding pool_ok_def pl
  proof (intro conjI ballI)
    have "a \<notin> set (free_list (pool b))"
      using po I(2) resting_iff [OF ok, of a] by (auto simp: pool_ok_def)
    then show "distinct (free_list (deallocate a (pool b)))"
      using po by (simp add: deallocate_def pool_ok_def)
  next
    fix x assume "x \<in> set (free_list (deallocate a (pool b)))"
    then have x: "x = a \<or> x \<in> set (free_list (pool b))" by (auto simp: deallocate_def)
    show "x < capacity (deallocate a (pool b))"
      using x po chain_at_payload [OF ok ain] by (auto simp: pool_ok_def)
    have "\<And>s' p'. x \<notin> set (chain_at b' s' p')"
    proof -
      fix s' p'
      show "x \<notin> set (chain_at b' s' p')"
      proof (cases "x = a")
        case True
        then show ?thesis using ua by simp
      next
        case False
        then have "unlinked b x" using x po by (auto simp: pool_ok_def)
        then show ?thesis using unlinked_iff [OF ok, of x] sub [of s' p'] by auto
      qed
    qed
    then show "unlinked b' x" using unlinked_iff [OF ok'] by simp
  qed
  have ix': "index_ok b'"
    unfolding index_ok_iff
  proof (intro allI impI)
    fix oid' a' assume "order_lookup b' oid' = Some a'"
    then have ne: "oid' \<noteq> oid" and la: "order_lookup b oid' = Some a'"
      by (auto simp: lk split: if_splits)
    note J = index_okD [OF ix la]
    have an: "a' \<noteq> a" using J(1) I(1) ne by auto
    from order_of_fields [OF oo [of a']] J an show "order_id (mem b' a') = oid' \<and> resting b' a'"
      by (auto simp: resting_def ch)
  qed
  show "snd (cancel_order oid b)" by (simp add: c)
  show "wf_book (fst (cancel_order oid b))"
    using ok' po' ix' by (simp add: wf_book_def c)
  show "\<And>s p. chain_at (fst (cancel_order oid b)) s p =
      (if s = is_buy (mem b a) \<and> p = price (mem b a)
       then remove1 a (chain_at b s p) else chain_at b s p)"
    using ch by (simp add: c s_def p_def)
  show "\<And>s p. total_at (fst (cancel_order oid b)) s p =
      (if s = is_buy (mem b a) \<and> p = price (mem b a)
       then total_at b s p - quantity (mem b a) else total_at b s p)"
    using tt by (simp add: c s_def p_def)
  show "order_lookup (fst (cancel_order oid b)) = (order_lookup b)(oid := None)"
    using lk by (simp add: c)
  show "\<And>x. order_of (mem (fst (cancel_order oid b)) x) = order_of (mem b x)"
    using oo by (simp add: c)
  show "pool (fst (cancel_order oid b)) = deallocate a (pool b)"
    using pl by (simp add: c)
qed

lemma order_of_amended [simp]:
  "order_of (n\<lparr>price := p\<rparr>) = (order_of n)\<lparr>price := p\<rparr>"
  "order_of (n\<lparr>quantity := q\<rparr>) = (order_of n)\<lparr>quantity := q\<rparr>"
  by (simp_all add: order_of_def)

lemma order_of_selectors [simp]:
  "order_id (order_of n) = order_id n" "is_buy (order_of n) = is_buy n"
  "price (order_of n) = price n" "quantity (order_of n) = quantity n"
  by (simp_all add: order_of_def)

lemma amend_reprice_spec:
  assumes wf: "wf_book b" and l: "order_lookup b oid = Some a" and q: "q \<noteq> 0"
    and np: "new_price \<noteq> price (mem b a)"
  shows "snd (amend_order oid new_price q b)"
    and "wf_book (fst (amend_order oid new_price q b))"
    and "\<And>s p. chain_at (fst (amend_order oid new_price q b)) s p =
          (if s = is_buy (mem b a) \<and> p = new_price then chain_at b s p @ [a]
           else if s = is_buy (mem b a) \<and> p = price (mem b a) then remove1 a (chain_at b s p)
           else chain_at b s p)"
    and "\<And>s p. total_at (fst (amend_order oid new_price q b)) s p =
          (if s = is_buy (mem b a) \<and> p = new_price then total_at b s p + q
           else if s = is_buy (mem b a) \<and> p = price (mem b a)
           then total_at b s p - quantity (mem b a)
           else total_at b s p)"
    and "order_lookup (fst (amend_order oid new_price q b)) = order_lookup b"
    and "\<And>x. order_of (mem (fst (amend_order oid new_price q b)) x) =
          (if x = a then (order_of (mem b a))\<lparr>price := new_price, quantity := q\<rparr>
           else order_of (mem b x))"
    and "pool (fst (amend_order oid new_price q b)) = pool b"
proof -
  note ok = wf_bookD(1) [OF wf] and po = wf_bookD(2) [OF wf] and ix = wf_bookD(3) [OF wf]
  note I = index_okD [OF ix l]
  define cap where "cap = capacity (pool b)"
  define s where "s = is_buy (mem b a)"
  define p where "p = price (mem b a)"
  have ok: "sides_ok b cap" using ok by (simp add: cap_def)
  have np': "new_price \<noteq> p" using np by (simp add: p_def)
  have ain: "a \<in> set (chain_at b s p)" using I(2) by (simp add: resting_def s_def p_def)
  then have hl: "has_level b s p" using has_level_iff [OF ok, of s p] by auto
  have acap: "a < cap" using chain_at_payload [OF ok ain] by simp
  note D = detach_spec [OF ok I(2)]
  define b1 where "b1 = detach a b"
  define n2 where "n2 = (mem b1 a)\<lparr>price := new_price, quantity := q\<rparr>"
  define b2 where "b2 = b1\<lparr>mem := (mem b1)(a := n2)\<rparr>"
  define b' where "b' = attach a b2"
  have c: "amend_order oid new_price q b = (b', True)"
    using amend_order_reprice [OF l q _ np] hl
    by (simp add: b'_def b2_def n2_def b1_def s_def p_def)
  have ok1: "sides_ok b1 cap" using D(1) by (simp add: b1_def)
  have ch1: "chain_at b1 s' p' =
      (if s' = s \<and> p' = p then remove1 a (chain_at b s' p') else chain_at b s' p')" for s' p'
    by (simp add: b1_def D(2) s_def p_def)
  have tt1: "total_at b1 s' p' =
      (if s' = s \<and> p' = p then total_at b s' p' - quantity (mem b a) else total_at b s' p')"
    for s' p'
    by (simp add: b1_def D(3) s_def p_def)
  have oo1: "order_of (mem b1 x) = order_of (mem b x)" for x
    by (simp add: b1_def D(4))
  have ua1: "a \<notin> set (chain_at b1 s' p')" for s' p'
  proof (cases "s' = s \<and> p' = p")
    case True
    then show ?thesis
      using chain_at_distinct [OF ok, of s' p'] by (simp add: ch1)
  next
    case False
    have "a \<notin> set (chain_at b s' p')"
    proof
      assume "a \<in> set (chain_at b s' p')"
      from chain_at_payload [OF ok this] False show False by (simp add: s_def p_def)
    qed
    then show ?thesis using False by (auto simp: ch1)
  qed
  have s2: "\<And>s'. get_side s' b2 = get_side s' b1" by (simp add: b2_def)
  have f2: "\<And>s' p' x. x \<in> set (chain_at b1 s' p') \<Longrightarrow> mem b2 x = mem b1 x"
    using ua1 by (auto simp: b2_def)
  note F = sides_ok_frame [where b' = b2, OF ok1 order_refl s2 f2]
  have u2: "unlinked b2 a" using unlinked_iff [OF F(1)] ua1 F(2) by simp
  note T = attach_spec [OF F(1) u2 acap]
  have n2: "mem b2 a = n2" by (simp add: b2_def)
  have n2f: "is_buy n2 = s" "price n2 = new_price" "quantity n2 = q"
    using order_of_fields [OF oo1 [of a]] by (simp_all add: n2_def s_def)
  have ch: "chain_at b' s' p' =
      (if s' = s \<and> p' = new_price then chain_at b s' p' @ [a]
       else if s' = s \<and> p' = p then remove1 a (chain_at b s' p')
       else chain_at b s' p')" for s' p'
  proof -
    have "chain_at b' s' p' =
        (if s' = s \<and> p' = new_price then chain_at b1 s' p' @ [a] else chain_at b1 s' p')"
      by (simp add: b'_def T(2) F(2) n2 n2f)
    then show ?thesis using np' by (simp add: ch1)
  qed
  have tt: "total_at b' s' p' =
      (if s' = s \<and> p' = new_price then total_at b s' p' + q
       else if s' = s \<and> p' = p then total_at b s' p' - quantity (mem b a)
       else total_at b s' p')" for s' p'
  proof -
    have "total_at b' s' p' =
        (if s' = s \<and> p' = new_price then total_at b1 s' p' + q else total_at b1 s' p')"
      by (simp add: b'_def T(3) F(3) n2 n2f)
    then show ?thesis using np' by (simp add: tt1)
  qed
  have lk: "order_lookup b' = order_lookup b"
    by (simp add: b'_def T(6)) (simp add: b2_def b1_def D(6))
  have pl: "pool b' = pool b"
    by (simp add: b'_def T(5)) (simp add: b2_def b1_def D(5))
  have oo: "order_of (mem b' x) =
      (if x = a then (order_of (mem b a))\<lparr>price := new_price, quantity := q\<rparr>
       else order_of (mem b x))" for x
    by (simp add: b'_def T(4)) (simp add: b2_def n2_def oo1)
  have ok': "sides_ok b' (capacity (pool b'))"
    using T(1) by (simp add: pl cap_def) (simp add: b'_def)
  have keep: "x \<in> set (chain_at b' s' p')" if "x \<in> set (chain_at b s' p')" "x \<noteq> a" for x s' p'
    using that by (auto simp: ch)
  have po': "pool_ok b'"
    unfolding pool_ok_def pl
  proof (intro conjI ballI)
    show "distinct (free_list (pool b))" using po by (simp add: pool_ok_def)
  next
    fix x assume x: "x \<in> set (free_list (pool b))"
    then show "x < capacity (pool b)" using po by (simp add: pool_ok_def)
    have ux: "unlinked b x" using x po by (simp add: pool_ok_def)
    then have "x \<noteq> a" using I(2) resting_iff [OF ok] by auto
    moreover have "\<And>s' p'. x \<notin> set (chain_at b s' p')"
      using ux unlinked_iff [OF ok] by simp
    ultimately show "unlinked b' x"
      using unlinked_iff [OF ok'] set_remove1_subset [of a] by (fastforce simp: ch)
  qed
  have ix': "index_ok b'"
    unfolding index_ok_iff
  proof (intro allI impI)
    fix oid' a' assume "order_lookup b' oid' = Some a'"
    then have la: "order_lookup b oid' = Some a'" by (simp add: lk)
    note J = index_okD [OF ix la]
    show "order_id (mem b' a') = oid' \<and> resting b' a'"
    proof (cases "a' = a")
      case True
      have "order_of (mem b' a) = (order_of (mem b a))\<lparr>price := new_price, quantity := q\<rparr>"
        by (simp add: oo)
      from order_of_eq_fields [OF this] J show ?thesis
        by (simp add: True resting_def ch s_def)
    next
      case False
      then have "order_of (mem b' a') = order_of (mem b a')" by (simp add: oo)
      from order_of_fields [OF this] J keep [OF _ False] show ?thesis
        by (simp add: resting_def)
    qed
  qed
  show "snd (amend_order oid new_price q b)" by (simp add: c)
  show "wf_book (fst (amend_order oid new_price q b))"
    using ok' po' ix' by (simp add: wf_book_def c)
  show "\<And>s p. chain_at (fst (amend_order oid new_price q b)) s p =
          (if s = is_buy (mem b a) \<and> p = new_price then chain_at b s p @ [a]
           else if s = is_buy (mem b a) \<and> p = price (mem b a) then remove1 a (chain_at b s p)
           else chain_at b s p)"
    using ch by (simp add: c s_def p_def)
  show "\<And>s p. total_at (fst (amend_order oid new_price q b)) s p =
          (if s = is_buy (mem b a) \<and> p = new_price then total_at b s p + q
           else if s = is_buy (mem b a) \<and> p = price (mem b a)
           then total_at b s p - quantity (mem b a)
           else total_at b s p)"
    using tt by (simp add: c s_def p_def)
  show "order_lookup (fst (amend_order oid new_price q b)) = order_lookup b"
    using lk by (simp add: c)
  show "\<And>x. order_of (mem (fst (amend_order oid new_price q b)) x) =
          (if x = a then (order_of (mem b a))\<lparr>price := new_price, quantity := q\<rparr>
           else order_of (mem b x))"
    using oo by (simp add: c)
  show "pool (fst (amend_order oid new_price q b)) = pool b"
    using pl by (simp add: c)
qed

lemma amend_requantity_spec:
  assumes wf: "wf_book b" and l: "order_lookup b oid = Some a" and q: "q \<noteq> 0"
  shows "snd (amend_order oid (price (mem b a)) q b)"
    and "wf_book (fst (amend_order oid (price (mem b a)) q b))"
    and "\<And>s p. chain_at (fst (amend_order oid (price (mem b a)) q b)) s p = chain_at b s p"
    and "\<And>s p. total_at (fst (amend_order oid (price (mem b a)) q b)) s p =
          (if s = is_buy (mem b a) \<and> p = price (mem b a)
           then total_at b s p - quantity (mem b a) + q else total_at b s p)"
    and "order_lookup (fst (amend_order oid (price (mem b a)) q b)) = order_lookup b"
    and "\<And>x. order_of (mem (fst (amend_order oid (price (mem b a)) q b)) x) =
          (if x = a then (order_of (mem b a))\<lparr>quantity := q\<rparr> else order_of (mem b x))"
    and "pool (fst (amend_order oid (price (mem b a)) q b)) = pool b"
proof -
  note ok = wf_bookD(1) [OF wf] and po = wf_bookD(2) [OF wf] and ix = wf_bookD(3) [OF wf]
  note I = index_okD [OF ix l]
  define cap where "cap = capacity (pool b)"
  define s where "s = is_buy (mem b a)"
  define p where "p = price (mem b a)"
  define q0 where "q0 = quantity (mem b a)"
  have ok: "sides_ok b cap" using ok by (simp add: cap_def)
  have ain: "a \<in> set (chain_at b s p)" using I(2) by (simp add: resting_def s_def p_def)
  then obtain level where lv: "map_find p (get_side s b) = Some level"
    by (cases "map_find p (get_side s b)") (auto simp: chain_at_def)
  from sides_ok_level [OF ok lv] obtain ns where
    ch: "is_chain (mem b) level ns" and ca: "chain_at b s p = ns" and ne: "ns \<noteq> []" and
    tot: "total_quantity level = sum_list (map (\<lambda>x. quantity (mem b x)) ns)" and
    pay: "\<And>x. x \<in> set ns \<Longrightarrow> is_buy (mem b x) = s \<and> price (mem b x) = p \<and> x < cap"
    by metis
  have an: "a \<in> set ns" using ain ca by simp
  have dn: "distinct ns" by (rule is_chain_distinct [OF ch])
  define m' where "m' = (mem b)(a := (mem b a)\<lparr>quantity := q\<rparr>)"
  define level' where "level' = level\<lparr>total_quantity := total_quantity level - q0 + q\<rparr>"
  define b' where "b' = set_side s (map_store p level' (get_side s b)) (b\<lparr>mem := m'\<rparr>)"
  have c: "amend_order oid (price (mem b a)) q b = (b', True)"
    using amend_order_requantity [OF l q lv [unfolded s_def p_def]]
    by (simp add: b'_def level'_def m'_def s_def p_def q0_def)
  have ch': "is_chain m' level' ns"
  proof -
    have "is_chain m' level ns"
      using ch by (rule is_chain_cong) (simp add: m'_def)
    then show ?thesis by (simp add: is_chain_def level'_def)
  qed
  have sum': "sum_list (map (\<lambda>x. quantity (m' x)) ns) = total_quantity level - q0 + q"
  proof -
    have a1: "sum_list (map (\<lambda>x. quantity (mem b x)) ns)
        = quantity (mem b a) + sum_list (map (\<lambda>x. quantity (mem b x)) (remove1 a ns))"
      using an by (rule sum_list_map_remove1)
    have a2: "sum_list (map (\<lambda>x. quantity (m' x)) ns)
        = quantity (m' a) + sum_list (map (\<lambda>x. quantity (m' x)) (remove1 a ns))"
      using an by (rule sum_list_map_remove1)
    have "a \<notin> set (remove1 a ns)" using dn by simp
    then have "sum_list (map (\<lambda>x. quantity (m' x)) (remove1 a ns))
        = sum_list (map (\<lambda>x. quantity (mem b x)) (remove1 a ns))"
      by (intro arg_cong [where f = sum_list] map_cong) (auto simp: m'_def)
    moreover have "quantity (m' a) = q" by (simp add: m'_def)
    ultimately show ?thesis using a1 a2 by (simp only: tot q0_def) simp
  qed
  have lvl': "level_ok m' cap s p level'"
    unfolding level_ok_iff
  proof (intro exI [of _ ns] conjI ballI)
    show "is_chain m' level' ns" by (rule ch')
    show "ns \<noteq> []" by (rule ne)
    show "total_quantity level' = sum_list (map (\<lambda>x. quantity (m' x)) ns)"
      by (simp add: sum') (simp add: level'_def)
  next
    fix x assume "x \<in> set ns"
    then show "is_buy (m' x) = s" "price (m' x) = p" "x < cap"
      using pay [of x] by (auto simp: m'_def)
  qed
  have find': "map_find p' (get_side s b') =
      (if p' = p then Some level' else map_find p' (get_side s b))" for p'
    using lv by (simp add: b'_def map_find_map_store)
  have frame: "mem b' x = mem b x"
    if "s' \<noteq> s \<or> p' \<noteq> p" "x \<in> set (chain_at b s' p')" for s' p' x
  proof -
    have "is_buy (mem b x) = s' \<and> price (mem b x) = p'"
      using chain_at_payload [OF ok that(2)] by simp
    with that(1) have "x \<noteq> a" by (auto simp: s_def p_def)
    then show ?thesis by (simp add: b'_def m'_def)
  qed
  have p1: "get_side (\<not> s) b' = get_side (\<not> s) b" by (simp add: b'_def)
  have p2: "map_ordered (side_less s) (get_side s b')"
    using sides_ok_ordered [OF ok, of s] by (simp add: b'_def)
  have p3: "map_find p' (get_side s b') = map_find p' (get_side s b)" if "p' \<noteq> p" for p'
    using that by (simp add: find')
  have p4: "level_ok (mem b') cap s p l'" if "map_find p (get_side s b') = Some l'" for l'
    using that lvl' by (simp add: find') (simp add: b'_def)
  note upd = sides_ok_update [where s = s and p = p and b' = b',
      OF ok order_refl p1 p2 p3 p4 frame]
  have here: "chain_at b' s p = ns"
    using chain_eq [OF ch'] by (simp add: chain_at_def find') (simp add: b'_def)
  have chs: "chain_at b' s' p' = chain_at b s' p'" for s' p'
    using upd(2) [where s' = s' and p' = p'] here ca by (cases "s' = s \<and> p' = p") auto
  have toth: "total_at b' s p = total_at b s p - q0 + q"
    using lv by (simp add: total_at_def find' level'_def)
  have tts: "total_at b' s' p' =
      (if s' = s \<and> p' = p then total_at b s' p' - q0 + q else total_at b s' p')" for s' p'
    using upd(3) [where s' = s' and p' = p'] toth by (cases "s' = s \<and> p' = p") auto
  have lk: "order_lookup b' = order_lookup b" by (simp add: b'_def)
  have pl: "pool b' = pool b" by (simp add: b'_def)
  have oo: "order_of (mem b' x) =
      (if x = a then (order_of (mem b a))\<lparr>quantity := q\<rparr> else order_of (mem b x))" for x
    by (simp add: b'_def m'_def)
  have ok': "sides_ok b' (capacity (pool b'))" using upd(1) by (simp add: pl cap_def)
  have po': "pool_ok b'"
    using po unlinked_iff [OF ok] unlinked_iff [OF ok']
    by (simp add: pool_ok_def pl chs)
  have ix': "index_ok b'"
    unfolding index_ok_iff
  proof (intro allI impI)
    fix oid' a' assume "order_lookup b' oid' = Some a'"
    then have la: "order_lookup b oid' = Some a'" by (simp add: lk)
    note J = index_okD [OF ix la]
    have "order_id (mem b' a') = order_id (mem b a') \<and> is_buy (mem b' a') = is_buy (mem b a')
        \<and> price (mem b' a') = price (mem b a')"
      by (simp add: b'_def m'_def)
    with J show "order_id (mem b' a') = oid' \<and> resting b' a'"
      by (simp add: resting_def chs)
  qed
  show "snd (amend_order oid (price (mem b a)) q b)" by (simp add: c)
  show "wf_book (fst (amend_order oid (price (mem b a)) q b))"
    using ok' po' ix' by (simp add: wf_book_def c)
  show "\<And>s p. chain_at (fst (amend_order oid (price (mem b a)) q b)) s p = chain_at b s p"
    using chs by (simp add: c)
  show "\<And>s p. total_at (fst (amend_order oid (price (mem b a)) q b)) s p =
          (if s = is_buy (mem b a) \<and> p = price (mem b a)
           then total_at b s p - quantity (mem b a) + q else total_at b s p)"
    using tts by (simp add: c s_def p_def q0_def)
  show "order_lookup (fst (amend_order oid (price (mem b a)) q b)) = order_lookup b"
    using lk by (simp add: c)
  show "\<And>x. order_of (mem (fst (amend_order oid (price (mem b a)) q b)) x) =
          (if x = a then (order_of (mem b a))\<lparr>quantity := q\<rparr> else order_of (mem b x))"
    using oo by (simp add: c)
  show "pool (fst (amend_order oid (price (mem b a)) q b)) = pool b"
    using pl by (simp add: c)
qed

section \<open>Every operation keeps the invariant\<close>

lemma amend_zero_cancel: "amend_order oid p 0 b = cancel_order oid b"
  by (simp add: amend_order_def cancel_order_def Let_def split: option.splits)

lemma wf_empty_book: "wf_book (empty_book m0)"
  by (simp add: wf_book_def sides_ok_def side_ok_def map_ordered_def get_side_def pool_ok_def
      index_ok_def empty_book_def)

lemma wf_add_order: "wf_book b \<Longrightarrow> wf_book (add_order ord b)"
  by (cases "allocate (pool b)") (rule add_order_spec(1))

lemma wf_cancel_order: "wf_book b \<Longrightarrow> wf_book (fst (cancel_order oid b))"
proof (cases "order_lookup b oid")
  case None
  assume "wf_book b"
  then show ?thesis using None by (simp add: cancel_order_absent)
next
  case (Some a)
  assume "wf_book b"
  then show ?thesis using Some by (rule cancel_order_spec(2))
qed

lemma wf_amend_order: "wf_book b \<Longrightarrow> wf_book (fst (amend_order oid p q b))"
proof (cases "order_lookup b oid")
  case None
  assume "wf_book b"
  then show ?thesis using None by (simp add: amend_order_def)
next
  case (Some a)
  assume wf: "wf_book b"
  show ?thesis
  proof (cases "q = 0")
    case True
    then show ?thesis using wf by (simp add: amend_zero_cancel wf_cancel_order)
  next
    case False
    show ?thesis
    proof (cases "p = price (mem b a)")
      case True
      then show ?thesis using amend_requantity_spec(2) [OF wf Some False] by simp
    next
      case ne: False
      then show ?thesis using amend_reprice_spec(2) [OF wf Some False] by simp
    qed
  qed
qed

lemma wf_apply_op: "wf_book b \<Longrightarrow> wf_book (apply_op x b)"
  by (cases x) (simp_all add: wf_add_order wf_cancel_order wf_amend_order)

lemma wf_run: "wf_book b \<Longrightarrow> wf_book (run xs b)"
  by (induction xs arbitrary: b) (simp_all add: wf_apply_op)

section \<open>Snapshots in terms of levels\<close>

lemma side_less_True: "side_less True = (\<lambda>x y. y < x)"
  by (simp add: fun_eq_iff side_less_def)

lemma side_less_False: "side_less False = (\<lambda>x y. x < y)"
  by (simp add: fun_eq_iff side_less_def)

lemma side_less_keys_unique:
  assumes "sorted_wrt (side_less s) xs" and "sorted_wrt (side_less s) ys" and "set xs = set ys"
  shows "xs = ys"
proof (cases s)
  case True
  have "sorted_wrt (<) (rev xs)" "sorted_wrt (<) (rev ys)"
    using assms(1,2) True by (simp_all add: sorted_wrt_rev side_less_True)
  moreover have "set (rev ys) = set (rev xs)" using assms(3) by simp
  ultimately have "rev ys = rev xs" by (rule strict_sorted_equal)
  then show ?thesis by simp
next
  case False
  have "sorted_wrt (<) xs" "sorted_wrt (<) ys"
    using assms(1,2) False by (simp_all add: side_less_False)
  moreover have "set ys = set xs" using assms(3) by simp
  ultimately have "ys = xs" by (rule strict_sorted_equal)
  then show ?thesis by simp
qed

lemma level_projection:
  "distinct (map fst m) \<Longrightarrow>
     map (\<lambda>(p, l). (p, total_quantity l)) m =
     map (\<lambda>p. (p, case map_find p m of None \<Rightarrow> 0 | Some l \<Rightarrow> total_quantity l)) (map fst m)"
proof (induction m)
  case Nil
  show ?case by simp
next
  case (Cons e m)
  obtain k v where e: "e = (k, v)" by (cases e)
  have "map (\<lambda>p. (p, case map_find p ((k, v) # m) of None \<Rightarrow> 0 | Some l \<Rightarrow> total_quantity l))
          (map fst m)
      = map (\<lambda>p. (p, case map_find p m of None \<Rightarrow> 0 | Some l \<Rightarrow> total_quantity l)) (map fst m)"
    using Cons.prems by (intro map_cong) (auto simp: e map_find_def)
  then show ?case using Cons by (simp add: e map_find_def)
qed

lemma snapshot_side:
  assumes "sides_ok b cap"
  shows "map (\<lambda>(p, l). (p, total_quantity l)) (get_side s b)
      = map (\<lambda>p. (p, total_at b s p)) (map fst (get_side s b))"
  using level_projection [OF map_ordered_distinct [OF sides_ok_ordered [OF assms, of s]]]
  by (simp add: total_at_def)

lemma side_keys:
  assumes "sides_ok b cap"
  shows "set (map fst (get_side s b)) = {p. chain_at b s p \<noteq> []}"
proof -
  have "p \<in> set (map fst (get_side s b)) \<longleftrightarrow> has_level b s p" for p
    by (auto simp: has_level_def map_find_def map_of_eq_None_iff)
  then show ?thesis using has_level_iff [OF assms] by auto
qed

lemma snapshot_determined:
  assumes "sides_ok b cap" and "sides_ok b' cap'"
    and "\<And>p. chain_at b' s p = chain_at b s p"
    and "\<And>p. total_at b' s p = total_at b s p"
  shows "map (\<lambda>(p, l). (p, total_quantity l)) (get_side s b')
      = map (\<lambda>(p, l). (p, total_quantity l)) (get_side s b)"
proof -
  have "set (map fst (get_side s b')) = set (map fst (get_side s b))"
    unfolding side_keys [OF assms(1)] side_keys [OF assms(2)] by (simp add: assms(3))
  then have "map fst (get_side s b') = map fst (get_side s b)"
    using sides_ok_ordered [OF assms(1), of s] sides_ok_ordered [OF assms(2), of s]
    unfolding map_ordered_def by (intro side_less_keys_unique)
  then show ?thesis
    unfolding snapshot_side [OF assms(1)] snapshot_side [OF assms(2)]
    by (simp add: assms(4))
qed

lemma get_snapshot_sides:
  "get_snapshot depth b =
     (b, take depth (map (\<lambda>(p, l). (p, total_quantity l)) (get_side True b)),
         take depth (map (\<lambda>(p, l). (p, total_quantity l)) (get_side False b)))"
  by (simp add: get_snapshot_def snapshot_loop_take get_side_def)

lemma word_pos_iff: "0 < (q :: 64 word) \<longleftrightarrow> q \<noteq> 0"
  by (simp add: word_neq_0_conv)

lemma requantity_mod:
  fixes t old q :: "64 word"
  shows "uint (t - old + q) = (uint t + (uint q - uint old)) mod 2 ^ 64"
proof -
  have "uint (t - old + q) = (uint (t - old) + uint q) mod 2 ^ 64"
    by (simp add: uint_word_ariths)
  also have "\<dots> = ((uint t - uint old) mod 2 ^ 64 + uint q) mod 2 ^ 64"
    by (simp add: uint_word_ariths)
  also have "\<dots> = (uint t - uint old + uint q) mod 2 ^ 64"
    by (simp add: mod_add_left_eq)
  finally show ?thesis by (simp add: algebra_simps)
qed

lemma unat_sum_list64:
  "unat (sum_list (map f xs) :: 64 word) = sum_list (map (\<lambda>x. unat (f x)) xs) mod 2 ^ 64"
proof (induction xs)
  case Nil
  show ?case by simp
next
  case (Cons x xs)
  have "unat (f x + sum_list (map f xs))
      = (unat (f x) + unat (sum_list (map f xs))) mod 2 ^ 64"
    by (simp add: unat_word_ariths)
  also have "\<dots> = (unat (f x) + sum_list (map (\<lambda>x. unat (f x)) xs)) mod 2 ^ 64"
    by (simp add: Cons.IH mod_add_right_eq)
  finally show ?case by simp
qed

lemma wf_book_invariants:
  assumes "wf_book b"
  shows "totals_mod64 b" and "no_empty_level b" and "index_resting b"
proof -
  note ok = wf_bookD(1) [OF assms]
  have lv: "chain (mem b) l \<noteq> []
      \<and> total_quantity l = sum_list (map (\<lambda>a. quantity (mem b a)) (chain (mem b) l))"
    if "(p, l) \<in> set (get_side s b)" for s p l
  proof -
    have "map_find p (get_side s b) = Some l"
      using that map_find_mem [OF sides_ok_ordered [OF ok, of s]] by simp
    from sides_ok_level [OF ok this] show ?thesis
      by (metis chain_eq)
  qed
  show "totals_mod64 b"
    unfolding totals_mod64_def using lv by (auto simp: unat_sum_list64)
  show "no_empty_level b"
    unfolding no_empty_level_def using lv by auto
  show "index_resting b"
    using wf_bookD(3) [OF assms] by (auto simp: index_resting_def index_ok_def split: option.splits)
qed

lemmas chain_eval = chain_def walk_None walk_Some

section \<open>Records the index has lost\<close>

lemma total_at_sum:
  assumes "sides_ok b cap"
  shows "total_at b s p = sum_list (map (\<lambda>x. quantity (mem b x)) (chain_at b s p))"
proof (cases "map_find p (get_side s b)")
  case None
  then show ?thesis by (simp add: total_at_def chain_at_def)
next
  case (Some l)
  from sides_ok_level [OF assms Some] Some show ?thesis
    by (metis option.simps(5) total_at_def)
qed

lemma orphan_step:
  assumes wf: "wf_book b" and r: "resting b x" and no: "\<And>oid. order_lookup b oid \<noteq> Some x"
  shows "resting (apply_op c b) x"
    and "\<And>oid. order_lookup (apply_op c b) oid \<noteq> Some x"
    and "order_of (mem (apply_op c b) x) = order_of (mem b x)"
proof -
  note ok = wf_bookD(1) [OF wf]
  define s where "s = is_buy (mem b x)"
  define p where "p = price (mem b x)"
  have xin: "x \<in> set (chain_at b s p)" using r by (simp add: resting_def s_def p_def)
  have goal: "resting b' x \<and> (\<forall>oid. order_lookup b' oid \<noteq> Some x)
      \<and> order_of (mem b' x) = order_of (mem b x)"
    if oo: "order_of (mem b' x) = order_of (mem b x)"
      and ch: "x \<in> set (chain_at b' s p)"
      and lk: "\<And>oid. order_lookup b' oid \<noteq> Some x" for b'
    using order_of_fields [OF oo] ch lk oo by (simp add: resting_def s_def p_def)
  have same: "resting b x \<and> (\<forall>oid. order_lookup b oid \<noteq> Some x)
      \<and> order_of (mem b x) = order_of (mem b x)"
    using r no by simp
  have cancel: "resting (fst (cancel_order oid b)) x
      \<and> (\<forall>oid'. order_lookup (fst (cancel_order oid b)) oid' \<noteq> Some x)
      \<and> order_of (mem (fst (cancel_order oid b)) x) = order_of (mem b x)" for oid
  proof (cases "order_lookup b oid")
    case None
    then show ?thesis using same by (simp add: cancel_order_absent)
  next
    case (Some a)
    note C = cancel_order_spec [OF wf Some]
    have ne: "a \<noteq> x" using Some no by auto
    show ?thesis
    proof (rule goal)
      show "order_of (mem (fst (cancel_order oid b)) x) = order_of (mem b x)" by (rule C(6))
      show "x \<in> set (chain_at (fst (cancel_order oid b)) s p)"
        using xin ne by (auto simp: C(3))
      show "\<And>oid'. order_lookup (fst (cancel_order oid b)) oid' \<noteq> Some x"
        using no by (simp add: C(5))
    qed
  qed
  have main: "resting (apply_op c b) x \<and> (\<forall>oid. order_lookup (apply_op c b) oid \<noteq> Some x)
      \<and> order_of (mem (apply_op c b) x) = order_of (mem b x)"
  proof (cases c)
    case (Add ord)
    obtain node pool1 where al: "allocate (pool b) = (node, pool1)"
      by (cases "allocate (pool b)")
    note A = add_order_spec [OF wf al]
    have ne: "x \<noteq> node" using A(6) r resting_iff [OF ok] by auto
    have "resting (add_order ord b) x \<and> (\<forall>oid. order_lookup (add_order ord b) oid \<noteq> Some x)
        \<and> order_of (mem (add_order ord b) x) = order_of (mem b x)"
    proof (rule goal)
      show "order_of (mem (add_order ord b) x) = order_of (mem b x)"
        using ne by (simp add: A(5))
      show "x \<in> set (chain_at (add_order ord b) s p)"
        using xin by (auto simp: A(2))
      show "\<And>oid. order_lookup (add_order ord b) oid \<noteq> Some x"
        using no ne by (simp add: A(4))
    qed
    then show ?thesis by (simp add: Add)
  next
    case (Cancel oid)
    then show ?thesis using cancel [of oid] by simp
  next
    case (Amend oid np q)
    have "resting (fst (amend_order oid np q b)) x
        \<and> (\<forall>oid'. order_lookup (fst (amend_order oid np q b)) oid' \<noteq> Some x)
        \<and> order_of (mem (fst (amend_order oid np q b)) x) = order_of (mem b x)"
    proof (cases "order_lookup b oid")
      case None
      then show ?thesis using same by (simp add: amend_order_def)
    next
      case (Some a)
      have ne: "a \<noteq> x" using Some no by auto
      show ?thesis
      proof (cases "q = 0")
        case True
        then show ?thesis using cancel [of oid] by (simp add: amend_zero_cancel)
      next
        case q: False
        show ?thesis
        proof (cases "np = price (mem b a)")
          case True
          note R = amend_requantity_spec [OF wf Some q]
          show ?thesis
            unfolding True
          proof (rule goal)
            show "order_of (mem (fst (amend_order oid (price (mem b a)) q b)) x)
                = order_of (mem b x)"
              using ne by (simp add: R(6))
            show "x \<in> set (chain_at (fst (amend_order oid (price (mem b a)) q b)) s p)"
              using xin by (simp add: R(3))
            show "\<And>oid'. order_lookup (fst (amend_order oid (price (mem b a)) q b)) oid'
                \<noteq> Some x"
              using no by (simp add: R(5))
          qed
        next
          case False
          note R = amend_reprice_spec [OF wf Some q False]
          show ?thesis
          proof (rule goal)
            show "order_of (mem (fst (amend_order oid np q b)) x) = order_of (mem b x)"
              using ne by (simp add: R(6))
            show "x \<in> set (chain_at (fst (amend_order oid np q b)) s p)"
              using xin ne by (auto simp: R(3))
            show "\<And>oid'. order_lookup (fst (amend_order oid np q b)) oid' \<noteq> Some x"
              using no by (simp add: R(5))
          qed
        qed
      qed
    qed
    then show ?thesis by (simp add: Amend)
  qed
  show "resting (apply_op c b) x"
    and "\<And>oid. order_lookup (apply_op c b) oid \<noteq> Some x"
    and "order_of (mem (apply_op c b) x) = order_of (mem b x)"
    using main by blast+
qed

lemma orphan_run:
  assumes "wf_book b" and "resting b x" and "\<And>oid. order_lookup b oid \<noteq> Some x"
  shows "resting (run cs b) x \<and> (\<forall>oid. order_lookup (run cs b) oid \<noteq> Some x)
     \<and> order_of (mem (run cs b) x) = order_of (mem b x)"
  using assms
proof (induction cs arbitrary: b)
  case Nil
  then show ?case by simp
next
  case (Cons c cs)
  note S = orphan_step [OF Cons.prems, of c]
  from Cons.IH [OF wf_apply_op [OF Cons.prems(1)] S(1,2)] S(3)
  show ?case by simp
qed

section \<open>The book of the scenario\<close>

lemma wf_scenario_book: "wf_book (scenario_book m0)"
  by (simp add: scenario_book_def wf_add_order wf_empty_book)

lemma scenario_lookup:
  "order_lookup (scenario_book m0) 1 = Some 0"
  "order_lookup (scenario_book m0) 2 = Some 1"
  "order_lookup (scenario_book m0) 3 = Some 2"
  "order_lookup (scenario_book m0) 4 = None"
  by (simp_all add: scenario_book_def book_eval)

lemma scenario_records:
  "order_of (mem (scenario_book m0) 0) = mk_order 1 True 100 10"
  "order_of (mem (scenario_book m0) 1) = mk_order 2 True 100 5"
  "order_of (mem (scenario_book m0) 2) = mk_order 3 True 101 7"
  by (simp_all add: scenario_book_def book_eval order_of_def)

lemma scenario_levels:
  "chain_at (scenario_book m0) True 100 = [0, 1]"
  "chain_at (scenario_book m0) True 101 = [2]"
  "chain_at (scenario_book m0) True 99 = []"
  "total_at (scenario_book m0) True 100 = 15"
  "total_at (scenario_book m0) True 101 = 7"
  "total_at (scenario_book m0) True 99 = 0"
  by (simp_all add: scenario_book_def book_eval chain_at_def total_at_def chain_eval)

lemma scenario_allocate: "fst (allocate (pool (scenario_book m0))) = 3"
  by (simp add: scenario_book_def book_eval)

lemma mk_order_fields [simp]:
  "order_id (mk_order i buy p q) = i" "is_buy (mk_order i buy p q) = buy"
  "price (mk_order i buy p q) = p" "quantity (mk_order i buy p q) = q"
  by (simp_all add: mk_order_def)

section \<open>The claims\<close>

text \<open>
  Where a claim speaks of every book state, the theorem is about every book that
  satisfies \<open>wf_book\<close>: the empty book does (\<open>wf_empty_book\<close>) and every operation,
  with any arguments, keeps it (\<open>wf_run\<close>), so these are all the states a book can
  be in.
\<close>

text \<open>
  Claim C1, as amended.  For every sequence of operations from the empty book in which
  each add meets its preconditions, after each operation (after every prefix of the
  sequence): every level's total equals the sum of the quantities of its chain modulo
  \<open>2 ^ 64\<close>, hence the exact sum whenever that is below \<open>2 ^ 64\<close>; no level of
  either map has an empty chain; and every identifier of the index maps to a record that
  is in the chain of the level its own side and price name.  (The proof does not need
  the preconditions.)
\<close>

theorem invariants_after_every_operation:
  assumes "ops_pre ops (empty_book m0)" and "n \<le> length ops"
  shows "totals_mod64 (run (take n ops) (empty_book m0))
     \<and> no_empty_level (run (take n ops) (empty_book m0))
     \<and> index_resting (run (take n ops) (empty_book m0))"
  using wf_book_invariants [OF wf_run [OF wf_empty_book]] by blast

text \<open>Witness for C1 as amended: two insertions and a cancellation.\<close>

theorem invariants_after_every_operation_witness:
  "ops_pre short_ops (empty_book zero_mem) \<and> 3 \<le> length short_ops
   \<and> snd (get_snapshot 1 (run (take 3 short_ops) (empty_book zero_mem))) = ([(100, 5)], [])
   \<and> totals_mod64 (run (take 3 short_ops) (empty_book zero_mem))
   \<and> no_empty_level (run (take 3 short_ops) (empty_book zero_mem))
   \<and> index_resting (run (take 3 short_ops) (empty_book zero_mem))"
proof -
  have pre: "ops_pre short_ops (empty_book zero_mem)"
    by (simp add: short_ops_def zero_mem_def book_eval)
  have len: "3 \<le> length short_ops" by (simp add: short_ops_def)
  have snap: "snd (get_snapshot 1 (run (take 3 short_ops) (empty_book zero_mem))) = ([(100, 5)], [])"
    by (simp add: short_ops_def zero_mem_def book_eval)
  show ?thesis
    using pre len snap invariants_after_every_operation [OF pre len] by simp
qed

text \<open>
  Counterexample to C1 as stated: after two buy orders of \<open>2 ^ 63\<close> at one price
  (distinct identifiers, positive quantities) the level's total is 0, the exact sum of
  its chain \<open>2 ^ 64\<close>.
\<close>

theorem overflow_breaks_exact_totals:
  "ops_pre overflow_ops (empty_book zero_mem)
   \<and> \<not> totals_exact (run overflow_ops (empty_book zero_mem))"
  by (simp add: overflow_ops_def zero_mem_def totals_exact_def book_eval chain_eval)

text \<open>
  Claim C2, as amended.  When the index holds an identifier whose record names a side
  and price at which that side's map has no level, \<open>cancel\<close> and \<open>amend\<close> (with any
  price and quantity) return false and leave the book unchanged.
\<close>

theorem dangling_returns_false:
  assumes "order_lookup b oid = Some node"
    and "map_find (price (mem b node)) (get_side (is_buy (mem b node)) b) = None"
  shows "cancel_order oid b = (b, False) \<and> amend_order oid p q b = (b, False)"
  using assms by (simp add: cancel_order_def amend_order_def Let_def)

text \<open>Witness for C2 as amended.\<close>

theorem dangling_returns_false_witness:
  "order_lookup dangling_book 1 = Some 0
   \<and> map_find (price (mem dangling_book 0)) (get_side (is_buy (mem dangling_book 0)) dangling_book)
       = None
   \<and> cancel_order 1 dangling_book = (dangling_book, False)
   \<and> amend_order 1 250 3 dangling_book = (dangling_book, False)"
proof -
  have a: "order_lookup dangling_book 1 = Some 0"
    by (simp add: dangling_book_def)
  have b: "map_find (price (mem dangling_book 0))
      (get_side (is_buy (mem dangling_book 0)) dangling_book) = None"
    by (simp add: dangling_book_def map_find_def get_side_def Node_of_def mk_order_def)
  show ?thesis
    using a b dangling_returns_false [OF a b, of 250 3] by simp
qed

text \<open>
  Counterexample to C2 as stated: a book whose index holds identifier 1 for a buy record
  at price 100 while the bid map has no level there; the three paths (cancel, amend at
  the same price, amend to another price) return false with the book unchanged; nothing
  fails.
\<close>

theorem dangling_silent_false:
  "order_lookup dangling_book 1 = Some 0
   \<and> price (mem dangling_book 0) = 100 \<and> is_buy (mem dangling_book 0)
   \<and> map_find 100 (bids dangling_book) = None
   \<and> cancel_order 1 dangling_book = (dangling_book, False)
   \<and> amend_order 1 100 5 dangling_book = (dangling_book, False)
   \<and> amend_order 1 99 5 dangling_book = (dangling_book, False)"
  by (simp add: dangling_book_def cancel_order_def amend_order_def map_find_def get_side_def
      Node_of_def mk_order_def Let_def)

text \<open>
  Claim C3.  The scenario of the specification, over any initial memory: the bid
  snapshots at depth 2 after the three insertions, after cancelling 1, after amending 2
  to quantity 20 at its price (order 2 then being the only record of level 100), and
  after amending 3 to price 99.
\<close>

theorem scenario_snapshots:
  "snd (get_snapshot 2 (scenario_book m0)) = ([(101, 7), (100, 15)], [])
   \<and> snd (get_snapshot 2 (fst (cancel_order 1 (scenario_book m0)))) = ([(101, 7), (100, 5)], [])
   \<and> snd (get_snapshot 2 (fst (amend_order 2 100 20 (fst (cancel_order 1 (scenario_book m0))))))
       = ([(101, 7), (100, 20)], [])
   \<and> map (\<lambda>a. order_id (mem (fst (amend_order 2 100 20 (fst (cancel_order 1 (scenario_book m0))))) a))
       (chain_at (fst (amend_order 2 100 20 (fst (cancel_order 1 (scenario_book m0))))) True 100) = [2]
   \<and> snd (get_snapshot 2 (fst (amend_order 3 99 7
        (fst (amend_order 2 100 20 (fst (cancel_order 1 (scenario_book m0))))))))
       = ([(100, 20), (99, 7)], [])"
  by (simp add: scenario_book_def book_eval chain_at_def chain_def walk.simps)

text \<open>
  Claim C4.  In every well-formed book, for every order whose identifier the index does
  not hold and whose quantity is positive, add followed by cancel of that identifier
  succeeds and gives a book with the same snapshot at every depth on both sides and the
  same set of identifiers in the index.
\<close>

theorem add_then_cancel_restores:
  assumes "wf_book b" and "order_lookup b (order_id ord) = None" and "0 < quantity ord"
  shows "snd (cancel_order (order_id ord) (add_order ord b))
     \<and> (\<forall>depth. snd (get_snapshot depth (fst (cancel_order (order_id ord) (add_order ord b))))
                 = snd (get_snapshot depth b))
     \<and> dom (order_lookup (fst (cancel_order (order_id ord) (add_order ord b))))
         = dom (order_lookup b)"
proof -
  obtain node pool1 where al: "allocate (pool b) = (node, pool1)"
    by (cases "allocate (pool b)")
  note A = add_order_spec [OF assms(1) al]
  define b1 where "b1 = add_order ord b"
  have wf1: "wf_book b1" and l1: "order_lookup b1 (order_id ord) = Some node"
    using A(1,4) by (simp_all add: b1_def)
  note C = cancel_order_spec [OF wf1 l1]
  define b2 where "b2 = fst (cancel_order (order_id ord) b1)"
  have on: "order_of (mem b1 node) = ord" using A(5) by (simp add: b1_def)
  note f = order_of_eq_fields [OF on]
  have un: "\<And>s p. node \<notin> set (chain_at b s p)"
    using A(6) unlinked_iff [OF wf_bookD(1) [OF assms(1)]] by simp
  have ch: "chain_at b2 s p = chain_at b s p" for s p
    using un by (simp add: b2_def C(3) f) (simp add: b1_def A(2) remove1_append)
  have tt: "total_at b2 s p = total_at b s p" for s p
    by (simp add: b2_def C(4) f) (simp add: b1_def A(3))
  have wf2: "wf_book b2" using C(2) by (simp add: b2_def)
  note S = snapshot_determined [OF wf_bookD(1) [OF assms(1)] wf_bookD(1) [OF wf2] ch tt]
  have "snd (get_snapshot depth b2) = snd (get_snapshot depth b)" for depth
    by (simp add: get_snapshot_sides S)
  moreover have "dom (order_lookup b2) = dom (order_lookup b)"
    using assms(2) by (simp add: b2_def C(5)) (auto simp: b1_def A(4))
  moreover have "snd (cancel_order (order_id ord) b1)" by (rule C(1))
  ultimately show ?thesis by (simp add: b2_def b1_def)
qed

text \<open>Witness for C4: a sell order 4 added to the scenario's book and cancelled.\<close>

theorem add_then_cancel_restores_witness:
  "wf_book (scenario_book zero_mem)
   \<and> order_lookup (scenario_book zero_mem) (order_id (mk_order 4 False (105 :: real) 3)) = None
   \<and> 0 < quantity (mk_order 4 False (105 :: real) 3)
   \<and> snd (cancel_order 4 (add_order (mk_order 4 False 105 3) (scenario_book zero_mem)))
   \<and> snd (get_snapshot 5
        (fst (cancel_order 4 (add_order (mk_order 4 False 105 3) (scenario_book zero_mem)))))
       = ([(101, 7), (100, 15)], [])"
proof -
  have lk: "order_lookup (scenario_book zero_mem) (order_id (mk_order 4 False (105 :: real) 3))
      = None"
    by (simp add: scenario_lookup)
  have q: "0 < quantity (mk_order 4 False (105 :: real) 3)" by simp
  have snap: "snd (get_snapshot 5 (scenario_book zero_mem)) = ([(101, 7), (100, 15)], [])"
    by (simp add: scenario_book_def book_eval)
  show ?thesis
    using add_then_cancel_restores [OF wf_scenario_book lk q] wf_scenario_book lk snap
    by simp
qed

text \<open>
  Claim C5.  Cancelling an identifier that the index does not hold returns false and
  the same book, so every snapshot is the same; and after a cancel that succeeded, a
  second cancel of the same identifier returns false and changes nothing.
\<close>

theorem cancel_absent_not_found:
  "(order_lookup b oid = None \<longrightarrow>
      cancel_order oid b = (b, False)
      \<and> (\<forall>depth. get_snapshot depth (fst (cancel_order oid b)) = get_snapshot depth b))
   \<and> (\<forall>b'. cancel_order oid b = (b', True) \<longrightarrow> cancel_order oid b' = (b', False))"
  using cancel_order_absent [of b oid] cancel_order_success_lookup [of oid b]
  by (auto intro: cancel_order_absent)

text \<open>Witness for C5: identifier 9 is absent from the scenario's book; 1 is cancelled twice.\<close>

theorem cancel_absent_not_found_witness:
  "order_lookup (scenario_book zero_mem) 9 = None
   \<and> cancel_order 9 (scenario_book zero_mem) = (scenario_book zero_mem, False)
   \<and> snd (cancel_order 1 (scenario_book zero_mem))
   \<and> \<not> snd (cancel_order 1 (fst (cancel_order 1 (scenario_book zero_mem))))"
proof -
  have n: "order_lookup (scenario_book zero_mem) 9 = None"
    by (simp add: scenario_book_def book_eval)
  have s: "snd (cancel_order 1 (scenario_book zero_mem))"
    by (simp add: scenario_book_def book_eval)
  then have c: "cancel_order 1 (scenario_book zero_mem)
      = (fst (cancel_order 1 (scenario_book zero_mem)), True)"
    by (cases "cancel_order 1 (scenario_book zero_mem)") simp
  show ?thesis
    using n s c cancel_absent_not_found [of "scenario_book zero_mem" 9]
      cancel_absent_not_found [of "scenario_book zero_mem" 1]
    by simp
qed

text \<open>
  Claim C6.  In every book, for every identifier and price, \<open>amend(id, p, 0)\<close> gives
  the same book and the same result as \<open>cancel(id)\<close>: false and the book unchanged
  when the index does not hold the identifier; and when the identifier is resting (the
  index maps it to a record \<open>a\<close> of a well-formed book), success, the identifier
  removed from the index, the record removed from the chain of its level, its quantity
  taken off the level's total, and its slot returned to the pool.
\<close>

theorem amend_zero_is_cancel:
  "amend_order oid p 0 b = cancel_order oid b
   \<and> (order_lookup b oid = None \<longrightarrow> amend_order oid p 0 b = (b, False))
   \<and> (wf_book b \<and> order_lookup b oid = Some a \<longrightarrow>
         snd (amend_order oid p 0 b)
         \<and> order_lookup (fst (amend_order oid p 0 b)) = (order_lookup b)(oid := None)
         \<and> (\<forall>s p'. chain_at (fst (amend_order oid p 0 b)) s p' =
               (if s = is_buy (mem b a) \<and> p' = price (mem b a)
                then remove1 a (chain_at b s p') else chain_at b s p'))
         \<and> (\<forall>s p'. total_at (fst (amend_order oid p 0 b)) s p' =
               (if s = is_buy (mem b a) \<and> p' = price (mem b a)
                then total_at b s p' - quantity (mem b a) else total_at b s p'))
         \<and> pool (fst (amend_order oid p 0 b)) = deallocate a (pool b))"
proof -
  have e: "amend_order oid p 0 b = cancel_order oid b" by (rule amend_zero_cancel)
  have n: "amend_order oid p 0 b = (b, False)" if "order_lookup b oid = None"
    using that by (simp add: amend_order_def)
  have r: "snd (amend_order oid p 0 b)
      \<and> order_lookup (fst (amend_order oid p 0 b)) = (order_lookup b)(oid := None)
      \<and> (\<forall>s p'. chain_at (fst (amend_order oid p 0 b)) s p' =
            (if s = is_buy (mem b a) \<and> p' = price (mem b a)
             then remove1 a (chain_at b s p') else chain_at b s p'))
      \<and> (\<forall>s p'. total_at (fst (amend_order oid p 0 b)) s p' =
            (if s = is_buy (mem b a) \<and> p' = price (mem b a)
             then total_at b s p' - quantity (mem b a) else total_at b s p'))
      \<and> pool (fst (amend_order oid p 0 b)) = deallocate a (pool b)"
    if wf: "wf_book b" and l: "order_lookup b oid = Some a"
  proof -
    note C = cancel_order_spec [OF wf l]
    show ?thesis
      unfolding e using C(1) C(3) C(4) C(5) C(7) by blast
  qed
  show ?thesis using e n r by blast
qed

text \<open>
  Witness for C6: in the scenario's book identifier 9 is absent and identifier 1 is
  resting at the head of level 100.
\<close>

theorem amend_zero_is_cancel_witness:
  "order_lookup (scenario_book zero_mem) 9 = None
   \<and> amend_order 9 250 0 (scenario_book zero_mem) = (scenario_book zero_mem, False)
   \<and> wf_book (scenario_book zero_mem)
   \<and> order_lookup (scenario_book zero_mem) 1 = Some 0
   \<and> snd (amend_order 1 250 0 (scenario_book zero_mem))
   \<and> order_lookup (fst (amend_order 1 250 0 (scenario_book zero_mem))) 1 = None
   \<and> chain_at (fst (amend_order 1 250 0 (scenario_book zero_mem))) True 100 = [1]
   \<and> total_at (fst (amend_order 1 250 0 (scenario_book zero_mem))) True 100 = 5"
proof -
  have n: "order_lookup (scenario_book zero_mem) 9 = None"
    by (simp add: scenario_book_def book_eval)
  have l: "order_lookup (scenario_book zero_mem) 1 = Some 0" by (rule scenario_lookup)
  note f = order_of_eq_fields [OF scenario_records(1) [of zero_mem]]
  have a9: "amend_order 9 250 0 (scenario_book zero_mem) = (scenario_book zero_mem, False)"
    using amend_zero_is_cancel [of 9 250 "scenario_book zero_mem"] n by blast
  have r: "snd (amend_order 1 250 0 (scenario_book zero_mem))"
    and lk: "order_lookup (fst (amend_order 1 250 0 (scenario_book zero_mem)))
        = (order_lookup (scenario_book zero_mem))(1 := None)"
    and ch: "chain_at (fst (amend_order 1 250 0 (scenario_book zero_mem))) True 100
        = (if True = is_buy (mem (scenario_book zero_mem) 0)
              \<and> 100 = price (mem (scenario_book zero_mem) 0)
           then remove1 0 (chain_at (scenario_book zero_mem) True 100)
           else chain_at (scenario_book zero_mem) True 100)"
    and tt: "total_at (fst (amend_order 1 250 0 (scenario_book zero_mem))) True 100
        = (if True = is_buy (mem (scenario_book zero_mem) 0)
              \<and> 100 = price (mem (scenario_book zero_mem) 0)
           then total_at (scenario_book zero_mem) True 100
                - quantity (mem (scenario_book zero_mem) 0)
           else total_at (scenario_book zero_mem) True 100)"
    using amend_zero_is_cancel [of 1 250 "scenario_book zero_mem" 0] wf_scenario_book l
    by blast+
  show ?thesis
    using n a9 wf_scenario_book l r f by (simp add: lk ch tt scenario_levels)
qed

text \<open>
  Claim C7, as amended.  In every well-formed book where the index maps \<open>oid\<close> to a
  record at price \<open>p\<close>, and for every quantity \<open>q > 0\<close>, \<open>amend(oid, p, q)\<close>
  succeeds and leaves the chain of every level as it was (so the record keeps its place
  in its level's chain, whether the quantity grows or shrinks), changes the total of the
  record's level by \<open>q\<close> minus the record's old quantity modulo \<open>2 ^ 64\<close> (hence by
  exactly that much whenever the new total does not wrap), leaves the total of every
  other level, every other record's order and the index unchanged, and stores \<open>q\<close>
  in the record.
\<close>

theorem amend_same_price_keeps_priority:
  assumes "wf_book b" and "order_lookup b oid = Some a" and "price (mem b a) = p" and "0 < q"
  shows "snd (amend_order oid p q b)
     \<and> (\<forall>s p'. chain_at (fst (amend_order oid p q b)) s p' = chain_at b s p')
     \<and> total_at (fst (amend_order oid p q b)) (is_buy (mem b a)) p
         = total_at b (is_buy (mem b a)) p + (q - quantity (mem b a))
     \<and> uint (total_at (fst (amend_order oid p q b)) (is_buy (mem b a)) p)
         = (uint (total_at b (is_buy (mem b a)) p) + (uint q - uint (quantity (mem b a))))
             mod 2 ^ 64
     \<and> (\<forall>s p'. s \<noteq> is_buy (mem b a) \<or> p' \<noteq> p \<longrightarrow>
           total_at (fst (amend_order oid p q b)) s p' = total_at b s p')
     \<and> (\<forall>x. order_of (mem (fst (amend_order oid p q b)) x)
           = (if x = a then (order_of (mem b a))\<lparr>quantity := q\<rparr> else order_of (mem b x)))
     \<and> order_lookup (fst (amend_order oid p q b)) = order_lookup b"
proof -
  have q: "q \<noteq> 0" using assms(4) by (simp add: word_pos_iff)
  note R = amend_requantity_spec [OF assms(1,2) q, unfolded assms(3)]
  have md: "uint (total_at (fst (amend_order oid p q b)) (is_buy (mem b a)) p)
      = (uint (total_at b (is_buy (mem b a)) p) + (uint q - uint (quantity (mem b a))))
          mod 2 ^ 64"
    using requantity_mod [of "total_at b (is_buy (mem b a)) p" "quantity (mem b a)" q]
    by (simp add: R(4))
  have tot: "total_at (fst (amend_order oid p q b)) (is_buy (mem b a)) p
      = total_at b (is_buy (mem b a)) p + (q - quantity (mem b a))"
    by (simp add: R(4))
  have oth: "total_at (fst (amend_order oid p q b)) s p' = total_at b s p'"
    if "s \<noteq> is_buy (mem b a) \<or> p' \<noteq> p" for s p'
    using that by (auto simp: R(4))
  show ?thesis
    using R(1) R(3) R(5) R(6) md tot oth by blast
qed

text \<open>
  Witness for C7 as amended: order 1, the head of level 100 of the scenario's book,
  amended from 10 to 20 at its price.
\<close>

theorem amend_same_price_keeps_priority_witness:
  "wf_book (scenario_book zero_mem)
   \<and> order_lookup (scenario_book zero_mem) 1 = Some 0
   \<and> price (mem (scenario_book zero_mem) 0) = 100
   \<and> (0 :: 64 word) < 20
   \<and> snd (amend_order 1 100 20 (scenario_book zero_mem))
   \<and> chain_at (fst (amend_order 1 100 20 (scenario_book zero_mem))) True 100 = [0, 1]
   \<and> total_at (fst (amend_order 1 100 20 (scenario_book zero_mem))) True 100 = 25
   \<and> total_at (fst (amend_order 1 100 20 (scenario_book zero_mem))) True 101 = 7"
proof -
  have lk: "order_lookup (scenario_book zero_mem) 1 = Some 0" by (rule scenario_lookup)
  note f = order_of_eq_fields [OF scenario_records(1) [of zero_mem]]
  have pr: "price (mem (scenario_book zero_mem) 0) = 100" using f by simp
  have q: "(0 :: 64 word) < 20" by simp
  show ?thesis
    using amend_same_price_keeps_priority [OF wf_scenario_book lk pr q] wf_scenario_book lk f
    by (simp add: scenario_levels)
qed

text \<open>
  Counterexample to C7 as stated: in the scenario's book order 2 rests at price 100 with
  quantity 5 in a level of total 15; amended at that price to \<open>2 ^ 64 - 1\<close> the level's
  total is 9, not 15 plus the difference of the quantities.
\<close>

theorem amend_total_wraps:
  "order_lookup (scenario_book zero_mem) 2 = Some 1
   \<and> price (mem (scenario_book zero_mem) 1) = 100
   \<and> (0 :: 64 word) < 18446744073709551615
   \<and> snd (amend_order 2 100 18446744073709551615 (scenario_book zero_mem))
   \<and> uint (quantity (mem (scenario_book zero_mem) 1)) = 5
   \<and> uint (total_at (scenario_book zero_mem) True 100) = 15
   \<and> uint (total_at (fst (amend_order 2 100 18446744073709551615 (scenario_book zero_mem)))
        True 100) = 9
   \<and> uint (total_at (fst (amend_order 2 100 18446744073709551615 (scenario_book zero_mem)))
        True 100)
       \<noteq> uint (total_at (scenario_book zero_mem) True 100)
          + (uint (18446744073709551615 :: 64 word)
             - uint (quantity (mem (scenario_book zero_mem) 1)))"
  by (simp add: scenario_book_def zero_mem_def book_eval total_at_def)

text \<open>
  Claim C8.  In every well-formed book where the index maps \<open>oid\<close> to a record of side
  \<open>s\<close> at \<open>old_price\<close>, for every other price and every quantity \<open>q > 0\<close>, amend
  succeeds; the old level's chain loses the record and its total the record's old
  quantity; the old level remains in the map exactly when the record was not its only
  occupant; the record holds the new price and quantity; the level at the new price on
  the same side exists, its chain is the former chain (empty if there was no level)
  with the record appended at the tail, and its total grew by \<open>q\<close>; all other levels,
  all other records' orders and the index are unchanged.
\<close>

theorem amend_new_price_moves_to_tail:
  assumes "wf_book b" and "order_lookup b oid = Some a"
    and "price (mem b a) = old_price" and "is_buy (mem b a) = s"
    and "new_price \<noteq> old_price" and "0 < q"
  shows "snd (amend_order oid new_price q b)
     \<and> chain_at (fst (amend_order oid new_price q b)) s old_price
         = remove1 a (chain_at b s old_price)
     \<and> total_at (fst (amend_order oid new_price q b)) s old_price
         = total_at b s old_price - quantity (mem b a)
     \<and> (has_level (fst (amend_order oid new_price q b)) s old_price
           \<longleftrightarrow> chain_at b s old_price \<noteq> [a])
     \<and> order_of (mem (fst (amend_order oid new_price q b)) a)
         = (order_of (mem b a))\<lparr>price := new_price, quantity := q\<rparr>
     \<and> has_level (fst (amend_order oid new_price q b)) s new_price
     \<and> chain_at (fst (amend_order oid new_price q b)) s new_price
         = chain_at b s new_price @ [a]
     \<and> total_at (fst (amend_order oid new_price q b)) s new_price
         = total_at b s new_price + q
     \<and> (\<forall>s' p'. s' \<noteq> s \<or> (p' \<noteq> old_price \<and> p' \<noteq> new_price) \<longrightarrow>
           chain_at (fst (amend_order oid new_price q b)) s' p' = chain_at b s' p'
           \<and> total_at (fst (amend_order oid new_price q b)) s' p' = total_at b s' p')
     \<and> (\<forall>x. x \<noteq> a \<longrightarrow>
           order_of (mem (fst (amend_order oid new_price q b)) x) = order_of (mem b x))
     \<and> order_lookup (fst (amend_order oid new_price q b)) = order_lookup b"
proof -
  have q: "q \<noteq> 0" using assms(6) by (simp add: word_pos_iff)
  have np: "new_price \<noteq> price (mem b a)" using assms(3,5) by simp
  note R = amend_reprice_spec [OF assms(1,2) q np, unfolded assms(3,4)]
  note ok = wf_bookD(1) [OF assms(1)]
  note ok' = wf_bookD(1) [OF R(2)]
  have ain: "a \<in> set (chain_at b s old_price)"
    using index_okD(2) [OF wf_bookD(3) [OF assms(1)] assms(2)]
    by (simp add: resting_def assms(3,4))
  have d: "distinct (chain_at b s old_price)" by (rule chain_at_distinct [OF ok])
  have single: "remove1 a (chain_at b s old_price) = [] \<longleftrightarrow> chain_at b s old_price = [a]"
  proof
    assume e: "remove1 a (chain_at b s old_price) = []"
    obtain xs ys where xy: "chain_at b s old_price = xs @ a # ys"
      using ain by (auto simp: in_set_conv_decomp)
    with d e show "chain_at b s old_price = [a]" by (simp add: remove1_append)
  qed simp
  have c_old: "chain_at (fst (amend_order oid new_price q b)) s old_price
      = remove1 a (chain_at b s old_price)"
    using assms(5) by (simp add: R(3))
  have c_new: "chain_at (fst (amend_order oid new_price q b)) s new_price
      = chain_at b s new_price @ [a]"
    by (simp add: R(3))
  have h_old: "has_level (fst (amend_order oid new_price q b)) s old_price
      \<longleftrightarrow> chain_at b s old_price \<noteq> [a]"
    unfolding has_level_iff [OF ok'] c_old using single by simp
  have h_new: "has_level (fst (amend_order oid new_price q b)) s new_price"
    unfolding has_level_iff [OF ok'] c_new by simp
  show ?thesis
    using R(1) assms(5) c_old c_new h_old h_new
    by (simp add: R(4,5,6)) (simp add: R(3))
qed

text \<open>Witness for C8: order 3 of the scenario's book amended from price 101 to 99.\<close>

theorem amend_new_price_moves_to_tail_witness:
  "wf_book (scenario_book zero_mem)
   \<and> order_lookup (scenario_book zero_mem) 3 = Some 2
   \<and> price (mem (scenario_book zero_mem) 2) = 101
   \<and> is_buy (mem (scenario_book zero_mem) 2) = True
   \<and> (99 :: real) \<noteq> 101 \<and> (0 :: 64 word) < 7
   \<and> snd (amend_order 3 99 7 (scenario_book zero_mem))
   \<and> \<not> has_level (fst (amend_order 3 99 7 (scenario_book zero_mem))) True 101
   \<and> chain_at (fst (amend_order 3 99 7 (scenario_book zero_mem))) True 99 = [2]
   \<and> total_at (fst (amend_order 3 99 7 (scenario_book zero_mem))) True 99 = 7"
proof -
  have lk: "order_lookup (scenario_book zero_mem) 3 = Some 2" by (rule scenario_lookup)
  note f = order_of_eq_fields [OF scenario_records(3) [of zero_mem]]
  have pr: "price (mem (scenario_book zero_mem) 2) = 101" using f by simp
  have sd: "is_buy (mem (scenario_book zero_mem) 2) = True" using f by simp
  have ne: "(99 :: real) \<noteq> 101" by simp
  have q: "(0 :: 64 word) < 7" by simp
  show ?thesis
    using amend_new_price_moves_to_tail [OF wf_scenario_book lk pr sd ne q] wf_scenario_book lk f
    by (simp add: scenario_levels)
qed

text \<open>
  Claim C9.  For every book whose two maps are ordered (as every \<open>std::map\<close> is) and
  every depth, \<open>get_snapshot\<close> returns at most \<open>depth\<close> levels per side, the bids
  strictly decreasing and the asks strictly increasing in price, without duplicate
  prices, empty sequences for depth 0, and the book it returns is the book it was given.
\<close>

theorem get_snapshot_bounded_ordered:
  assumes "maps_ordered b"
  shows "case get_snapshot depth b of
           (b', bids_out, asks_out) \<Rightarrow>
             b' = b
             \<and> length bids_out \<le> depth \<and> length asks_out \<le> depth
             \<and> sorted_wrt (\<lambda>x y. fst x > fst y) bids_out
             \<and> sorted_wrt (\<lambda>x y. fst x < fst y) asks_out
             \<and> distinct (map fst bids_out) \<and> distinct (map fst asks_out)
             \<and> (depth = 0 \<longrightarrow> bids_out = [] \<and> asks_out = [])"
proof -
  let ?pl = "\<lambda>(p, l). (p, total_quantity l)"
  have sb: "sorted_wrt (\<lambda>x y. side_less True (fst x) (fst y)) (take depth (map ?pl (bids b)))"
    using assms unfolding maps_ordered_def map_ordered_def
    by (intro sorted_wrt_take_map) simp
  have sa: "sorted_wrt (\<lambda>x y. side_less False (fst x) (fst y)) (take depth (map ?pl (asks b)))"
    using assms unfolding maps_ordered_def map_ordered_def
    by (intro sorted_wrt_take_map) simp
  have db: "distinct (map fst (take depth (map ?pl (bids b))))"
    using sb by (rule sorted_wrt_less_distinct) (simp add: side_less_def)
  have da: "distinct (map fst (take depth (map ?pl (asks b))))"
    using sa by (rule sorted_wrt_less_distinct) (simp add: side_less_def)
  show ?thesis
    using sb sa db da by (simp add: get_snapshot_def snapshot_loop_take side_less_def)
qed

text \<open>Witness for C9: the book of the scenario, at depth 1.\<close>

theorem get_snapshot_bounded_ordered_witness:
  "maps_ordered (scenario_book zero_mem)
   \<and> get_snapshot 1 (scenario_book zero_mem) = (scenario_book zero_mem, [(101, 7)], [])"
proof -
  have m: "maps_ordered (scenario_book zero_mem)"
    by (simp add: scenario_book_def maps_ordered_def map_ordered_def book_eval)
  have "get_snapshot 1 (scenario_book zero_mem) = (scenario_book zero_mem, [(101, 7)], [])"
    using get_snapshot_bounded_ordered [OF m, of 1]
    by (simp add: scenario_book_def book_eval)
  with m show ?thesis by simp
qed

text \<open>
  Claim C10.  In every well-formed book whose index maps the identifier of \<open>ord\<close> to
  a record \<open>old\<close>, \<open>add(ord)\<close> makes the index map that identifier to the newly
  allocated record, which is another slot; \<open>old\<close> stays in the chain of its level with
  its order unchanged, and the level's total is the sum over that chain; no identifier
  of the index maps to \<open>old\<close>; and all of this remains so after any further sequence
  of operations: the record can never be cancelled or amended again.
\<close>

theorem duplicate_add_orphans_record:
  assumes "wf_book b" and "order_lookup b (order_id ord) = Some old"
    and "b' = add_order ord b" and "node = fst (allocate (pool b))"
    and "s = is_buy (mem b old)" and "p = price (mem b old)"
  shows "order_lookup b' (order_id ord) = Some node \<and> node \<noteq> old
     \<and> order_of (mem b' node) = ord
     \<and> old \<in> set (chain_at b' s p)
     \<and> order_of (mem b' old) = order_of (mem b old)
     \<and> total_at b' s p = sum_list (map (\<lambda>x. quantity (mem b' x)) (chain_at b' s p))
     \<and> (\<forall>oid. order_lookup b' oid \<noteq> Some old)
     \<and> (\<forall>cs. old \<in> set (chain_at (run cs b') s p)
            \<and> order_of (mem (run cs b') old) = order_of (mem b old)
            \<and> total_at (run cs b') s p
                = sum_list (map (\<lambda>x. quantity (mem (run cs b') x)) (chain_at (run cs b') s p))
            \<and> (\<forall>oid. order_lookup (run cs b') oid \<noteq> Some old))"
proof -
  obtain pool1 where al: "allocate (pool b) = (node, pool1)"
    using assms(4) by (cases "allocate (pool b)") simp
  note ok = wf_bookD(1) [OF assms(1)]
  note I = index_okD [OF wf_bookD(3) [OF assms(1)] assms(2)]
  note A = add_order_spec [OF assms(1) al]
  have wf': "wf_book b'" unfolding assms(3) by (rule A(1))
  have ch': "chain_at b' s' p' =
      (if s' = is_buy ord \<and> p' = price ord then chain_at b s' p' @ [node] else chain_at b s' p')"
    for s' p'
    unfolding assms(3) by (rule A(2))
  have lk': "order_lookup b' = (order_lookup b)(order_id ord \<mapsto> node)"
    unfolding assms(3) by (rule A(4))
  have oo': "order_of (mem b' x) = (if x = node then ord else order_of (mem b x))" for x
    unfolding assms(3) by (rule A(5))
  have ne: "node \<noteq> old" using A(6) I(2) resting_iff [OF ok] by auto
  have oin: "old \<in> set (chain_at b s p)" using I(2) by (simp add: resting_def assms(5,6))
  have oo: "order_of (mem b' old) = order_of (mem b old)" using ne by (simp add: oo')
  have r': "resting b' old"
    using order_of_fields [OF oo] oin by (auto simp: resting_def ch' assms(5,6))
  have no': "order_lookup b' oid \<noteq> Some old" for oid
  proof
    assume l: "order_lookup b' oid = Some old"
    then have "oid \<noteq> order_id ord" using ne by (auto simp: lk')
    with l have "order_lookup b oid = Some old" by (simp add: lk')
    from index_okD(1) [OF wf_bookD(3) [OF assms(1)] this] I(1) \<open>oid \<noteq> order_id ord\<close>
    show False by simp
  qed
  have later: "old \<in> set (chain_at (run cs b') s p)
      \<and> order_of (mem (run cs b') old) = order_of (mem b old)
      \<and> total_at (run cs b') s p
          = sum_list (map (\<lambda>x. quantity (mem (run cs b') x)) (chain_at (run cs b') s p))
      \<and> (\<forall>oid. order_lookup (run cs b') oid \<noteq> Some old)" for cs
  proof -
    note O = orphan_run [OF wf' r' no', of cs]
    have e: "order_of (mem (run cs b') old) = order_of (mem b old)" using O oo by simp
    have "old \<in> set (chain_at (run cs b') s p)"
      using O order_of_fields [OF e] by (simp add: resting_def assms(5,6))
    then show ?thesis
      using O e total_at_sum [OF wf_bookD(1) [OF wf_run [OF wf'], of cs]] by simp
  qed
  have c1: "order_lookup b' (order_id ord) = Some node" by (simp add: lk')
  have c3: "order_of (mem b' node) = ord" by (simp add: oo')
  have c4: "old \<in> set (chain_at b' s p)"
    and c6: "total_at b' s p = sum_list (map (\<lambda>x. quantity (mem b' x)) (chain_at b' s p))"
    using later [of "[]"] by simp_all
  show ?thesis
    using c1 ne c3 c4 oo c6 no' later by blast
qed

text \<open>Witness for C10: a second order 1 added to the scenario's book, then cancelled.\<close>

theorem duplicate_add_orphans_record_witness:
  "wf_book (scenario_book zero_mem)
   \<and> order_lookup (scenario_book zero_mem) (order_id (mk_order 1 True (105 :: real) 4)) = Some 0
   \<and> order_lookup (add_order (mk_order 1 True 105 4) (scenario_book zero_mem)) 1 = Some 3
   \<and> 0 \<in> set (chain_at (add_order (mk_order 1 True 105 4) (scenario_book zero_mem)) True 100)
   \<and> order_lookup (add_order (mk_order 1 True 105 4) (scenario_book zero_mem)) 2 \<noteq> Some 0
   \<and> 0 \<in> set (chain_at
        (run [Cancel 1] (add_order (mk_order 1 True 105 4) (scenario_book zero_mem))) True 100)
   \<and> order_lookup
        (run [Cancel 1] (add_order (mk_order 1 True 105 4) (scenario_book zero_mem))) 1
       \<noteq> Some 0"
proof -
  have lk: "order_lookup (scenario_book zero_mem) (order_id (mk_order 1 True (105 :: real) 4))
      = Some 0"
    by (simp add: scenario_lookup)
  note f = order_of_eq_fields [OF scenario_records(1) [of zero_mem]]
  note D = duplicate_add_orphans_record [OF wf_scenario_book lk refl refl refl refl]
  have later: "0 \<in> set (chain_at
        (run [Cancel 1] (add_order (mk_order 1 True 105 4) (scenario_book zero_mem))) True 100)
      \<and> order_lookup
        (run [Cancel 1] (add_order (mk_order 1 True 105 4) (scenario_book zero_mem))) 1
       \<noteq> Some 0"
    using D f by (simp del: run.simps apply_op.simps)
  show ?thesis
    using D later wf_scenario_book lk f by (simp add: scenario_allocate del: run.simps apply_op.simps)
qed


end
